theory Spec2Isabelle
  imports Main
begin

section \<open>JavaScript strings and the string primitives the parsers use\<close>

text \<open>
  A JavaScript string is modelled as a \<^typ>\<open>string\<close>: a list of code units, restricted to
  the code units below 256. The white space of \<^verbatim>\<open>\s\<close> and of \<^verbatim>\<open>trim()\<close> (the same
  set in ECMAScript) is, in that range: TAB, LF, VT, FF, CR, SPACE and NBSP.
\<close>

abbreviation LF :: char where "LF \<equiv> CHR 0x0A"
abbreviation CR :: char where "CR \<equiv> CHR 0x0D"

definition is_ws :: "char \<Rightarrow> bool" where
  "is_ws c \<longleftrightarrow> c = CHR 0x09 \<or> c = LF \<or> c = CHR 0x0B \<or> c = CHR 0x0C \<or> c = CR
     \<or> c = CHR 0x20 \<or> c = CHR 0xA0"

definition is_digit :: "char \<Rightarrow> bool" where
  "is_digit c \<longleftrightarrow> c \<in> set ''0123456789''"

text \<open>\<^verbatim>\<open>s.trim()\<close>\<close>

definition trim :: "string \<Rightarrow> string" where
  "trim s = rev (dropWhile is_ws (rev (dropWhile is_ws s)))"

text \<open>\<^verbatim>\<open>xs.join(sep)\<close> on an array of strings\<close>

fun join :: "string \<Rightarrow> string list \<Rightarrow> string" where
  "join sep [] = []"
| "join sep [x] = x"
| "join sep (x # y # ys) = x @ sep @ join sep (y # ys)"

text \<open>\<^verbatim>\<open>s.split('\n')\<close>: the pieces between the line feeds; never the empty array.\<close>

fun split_LF :: "string \<Rightarrow> string list" where
  "split_LF [] = [[]]"
| "split_LF (c # r) =
     (if c = LF then [] # split_LF r
      else (case split_LF r of [] \<Rightarrow> [[c]] | p # ps \<Rightarrow> (c # p) # ps))"

text \<open>\<^verbatim>\<open>s.split(/\r?\n/)\<close>: a line feed, with the carriage return before it when there is one.\<close>

fun split_CRLF :: "string \<Rightarrow> string list" where
  "split_CRLF [] = [[]]"
| "split_CRLF [c] = (if c = LF then [[], []] else [[c]])"
| "split_CRLF (c # d # r) =
     (if c = LF then [] # split_CRLF (d # r)
      else if c = CR \<and> d = LF then [] # split_CRLF r
      else (case split_CRLF (d # r) of [] \<Rightarrow> [[c]] | p # ps \<Rightarrow> (c # p) # ps))"

text \<open>\<^verbatim>\<open>s.replace(/\r\n/g, '\n')\<close>: one pass from the left; what it writes is not scanned again.\<close>

fun replace_CRLF :: "string \<Rightarrow> string" where
  "replace_CRLF (c # d # r) =
     (if c = CR \<and> d = LF then LF # replace_CRLF r else c # replace_CRLF (d # r))"
| "replace_CRLF s = s"

text \<open>
  The regular expression \<^verbatim>\<open>/\n\s*\n/\<close> tried at the head of a string. The star is greedy
  and backtracks: after the first line feed it takes the whole run \<open>w\<close> of white space and
  gives characters back until a line feed follows, so the match ends with the last line
  feed of \<open>w\<close>. The result is what is left of the string after the match.
\<close>

definition after_last_LF :: "string \<Rightarrow> string" where
  "after_last_LF w = rev (takeWhile (\<lambda>c. c \<noteq> LF) (rev w))"

fun sep_rest :: "string \<Rightarrow> string option" where
  "sep_rest [] = None"
| "sep_rest (c # r) =
     (let w = takeWhile is_ws r in
      if c = LF \<and> LF \<in> set w then Some (drop (length w - length (after_last_LF w)) r)
      else None)"

text \<open>The leftmost match of \<^verbatim>\<open>/\n\s*\n/\<close>: the text before it and the text after it.\<close>

fun first_sep :: "string \<Rightarrow> (string \<times> string) option" where
  "first_sep [] = None"
| "first_sep (c # r) =
     (case sep_rest (c # r) of
        Some rest \<Rightarrow> Some ([], rest)
      | None \<Rightarrow> map_option (\<lambda>(p, rest). (c # p, rest)) (first_sep r))"

lemma sep_rest_shorter: "sep_rest s = Some rest \<Longrightarrow> length rest < length s"
  by (cases s) (auto simp: Let_def split: if_splits)

lemma first_sep_shorter: "first_sep s = Some (p, rest) \<Longrightarrow> length rest < length s"
proof (induction s arbitrary: p)
  case Nil
  then show ?case by simp
next
  case (Cons c r)
  show ?case
  proof (cases "sep_rest (c # r)")
    case (Some rest')
    with Cons.prems have "rest' = rest" by simp
    with Some sep_rest_shorter show ?thesis by blast
  next
    case None
    with Cons.prems obtain p' where "first_sep r = Some (p', rest)" by auto
    with Cons.IH have "length rest < length r" by blast
    then show ?thesis by simp
  qed
qed

text \<open>\<^verbatim>\<open>s.split(/\n\s*\n/)\<close>\<close>

function split_blank :: "string \<Rightarrow> string list" where
  "split_blank s =
     (case first_sep s of None \<Rightarrow> [s] | Some (p, rest) \<Rightarrow> p # split_blank rest)"
  by pat_completeness auto
termination
  by (relation "measure length") (auto dest: first_sep_shorter)

declare split_blank.simps [simp del]

text \<open>\<^verbatim>\<open>line.includes('-->')\<close>\<close>

fun includes_arrow :: "string \<Rightarrow> bool" where
  "includes_arrow (a # b # c # r) =
     ((a = CHR ''-'' \<and> b = CHR ''-'' \<and> c = CHR ''>'') \<or> includes_arrow (b # c # r))"
| "includes_arrow s = False"

text \<open>\<^verbatim>\<open>xs.findIndex(P)\<close>, with \<open>None\<close> for -1\<close>

fun findIndex :: "('a \<Rightarrow> bool) \<Rightarrow> 'a list \<Rightarrow> nat option" where
  "findIndex P [] = None"
| "findIndex P (x # xs) = (if P x then Some 0 else map_option Suc (findIndex P xs))"

text \<open>
  The template \<^verbatim>\<open>${index + 1}\<close>: the decimal digits of a natural number (an array index is
  below \<open>2^32\<close>, far from where JavaScript switches to the exponent notation).
\<close>

definition digit_char :: "nat \<Rightarrow> char" where
  "digit_char d = ''0123456789'' ! d"

fun show_nat :: "nat \<Rightarrow> string" where
  "show_nat n = (if n < 10 then [digit_char n] else show_nat (n div 10) @ [digit_char (n mod 10)])"

declare show_nat.simps [simp del]

section \<open>The data model (types.ts)\<close>

record SubtitleBlock =
  block_id :: nat
  startTime :: string
  endTime :: string
  originalText :: string
  translatedText :: string
  isTranslating :: bool

datatype ContentType = PLAIN_TEXT | SUBTITLE_SRT | LYRICS_LRC | MARKDOWN

datatype OutputFormat = ONLY_TRANSLATION | DUAL_TRANS_SRC | DUAL_SRC_TRANS

section \<open>The parsers (services/parser.ts)\<close>

subsection \<open>parseSRT\<close>

text \<open>The shape \<^verbatim>\<open>\d{2}:\d{2}:\d{2},\d{3}\<close>, twelve characters.\<close>

definition is_timestamp :: "string \<Rightarrow> bool" where
  "is_timestamp t \<longleftrightarrow> length t = 12
     \<and> is_digit (t ! 0) \<and> is_digit (t ! 1) \<and> t ! 2 = CHR '':''
     \<and> is_digit (t ! 3) \<and> is_digit (t ! 4) \<and> t ! 5 = CHR '':''
     \<and> is_digit (t ! 6) \<and> is_digit (t ! 7) \<and> t ! 8 = CHR '',''
     \<and> is_digit (t ! 9) \<and> is_digit (t ! 10) \<and> is_digit (t ! 11)"

text \<open>
  The regular expression \<^verbatim>\<open>(\d{2}:\d{2}:\d{2},\d{3})\s*-->\s*(\d{2}:\d{2}:\d{2},\d{3})\<close>
  tried at the head of a string. Each \<^verbatim>\<open>\s*\<close> is followed by a character that is not
  white space, so the greedy run is the only way to match. The result is the two groups.
\<close>

definition time_match_here :: "string \<Rightarrow> (string \<times> string) option" where
  "time_match_here s =
     (let t1 = take 12 s; r1 = dropWhile is_ws (drop 12 s);
          r2 = dropWhile is_ws (drop 3 r1); t2 = take 12 r2
      in if is_timestamp t1 \<and> take 3 r1 = ''-->'' \<and> is_timestamp t2 then Some (t1, t2)
         else None)"

text \<open>\<^verbatim>\<open>timeLine.match(...)\<close>: the leftmost position where the expression matches.\<close>

fun time_match :: "string \<Rightarrow> (string \<times> string) option" where
  "time_match [] = None"
| "time_match (c # r) =
     (case time_match_here (c # r) of Some m \<Rightarrow> Some m | None \<Rightarrow> time_match r)"

text \<open>
  The body of the loop over the blocks: \<open>None\<close> where the source reaches \<^verbatim>\<open>continue\<close> or
  falls through without a push, otherwise the two time stamps and the text of the cue.
\<close>

definition parse_block :: "string \<Rightarrow> (string \<times> string \<times> string) option" where
  "parse_block block =
     (if trim block = [] then None
      else let lines = split_LF block in
        if length lines < 2 then None
        else (case findIndex includes_arrow lines of
            None \<Rightarrow> None
          | Some arrowIndex \<Rightarrow>
              (case time_match (lines ! arrowIndex) of
                 None \<Rightarrow> None
               | Some (t1, t2) \<Rightarrow>
                   let textLines = drop (arrowIndex + 1) lines;
                       text = trim (join [LF] textLines)
                   in if text \<noteq> [] then Some (t1, t2, text) else None)))"

text \<open>The loop, with the counter \<^verbatim>\<open>idCounter\<close> as an argument.\<close>

fun parseSRT_loop :: "nat \<Rightarrow> string list \<Rightarrow> SubtitleBlock list" where
  "parseSRT_loop idCounter [] = []"
| "parseSRT_loop idCounter (block # blocks) =
     (case parse_block block of
        None \<Rightarrow> parseSRT_loop idCounter blocks
      | Some (t1, t2, text) \<Rightarrow>
          \<lparr>block_id = idCounter, startTime = t1, endTime = t2, originalText = text,
           translatedText = [], isTranslating = False\<rparr> # parseSRT_loop (idCounter + 1) blocks)"

definition parseSRT :: "string \<Rightarrow> SubtitleBlock list" where
  "parseSRT content = parseSRT_loop 1 (split_blank (replace_CRLF content))"

subsection \<open>parseLRC\<close>

text \<open>
  The regular expression \<^verbatim>\<open>/^\[(\d{2}:\d{2}(?:\.\d{2,3})?)\](.*)/\<close> on one line. The
  optional group is tried with three digits, then with two, then left out; a closing
  bracket must follow. The dot of \<^verbatim>\<open>(.*)\<close> stops at a line terminator.
\<close>

definition is_mmss :: "string \<Rightarrow> bool" where
  "is_mmss t \<longleftrightarrow> length t = 5 \<and> is_digit (t ! 0) \<and> is_digit (t ! 1) \<and> t ! 2 = CHR '':''
     \<and> is_digit (t ! 3) \<and> is_digit (t ! 4)"

definition is_fraction :: "nat \<Rightarrow> string \<Rightarrow> bool" where
  "is_fraction n t \<longleftrightarrow> length t = n + 1 \<and> t ! 0 = CHR ''.'' \<and> (\<forall>c \<in> set (drop 1 t). is_digit c)"

definition is_line_terminator :: "char \<Rightarrow> bool" where
  "is_line_terminator c \<longleftrightarrow> c = LF \<or> c = CR"

definition lrc_match :: "string \<Rightarrow> (string \<times> string) option" where
  "lrc_match line =
     (let body = drop 1 line; t = take 5 body; r = drop 5 body;
          rest_of = (\<lambda>n. takeWhile (\<lambda>c. \<not> is_line_terminator c) (drop (n + 1) r))
      in if take 1 line = ''['' \<and> is_mmss t then
           (if is_fraction 3 (take 4 r) \<and> take 1 (drop 4 r) = '']'' then Some (t @ take 4 r, rest_of 4)
            else if is_fraction 2 (take 3 r) \<and> take 1 (drop 3 r) = '']'' then Some (t @ take 3 r, rest_of 3)
            else if take 1 r = '']'' then Some (t, rest_of 0)
            else None)
         else None)"

fun parseLRC_loop :: "nat \<Rightarrow> string list \<Rightarrow> SubtitleBlock list" where
  "parseLRC_loop n [] = []"
| "parseLRC_loop n (line # lines) =
     (case lrc_match line of
        None \<Rightarrow> parseLRC_loop n lines
      | Some (start, rest) \<Rightarrow>
          let text = trim rest in
          if text \<noteq> [] then
            \<lparr>block_id = n, startTime = start, endTime = [], originalText = text,
             translatedText = [], isTranslating = False\<rparr> # parseLRC_loop (n + 1) lines
          else parseLRC_loop n lines)"

definition parseLRC :: "string \<Rightarrow> SubtitleBlock list" where
  "parseLRC content = parseLRC_loop 1 (split_CRLF content)"

subsection \<open>parsePlainText\<close>

definition parsePlainText :: "string \<Rightarrow> SubtitleBlock list" where
  "parsePlainText content =
     filter (\<lambda>b. length (originalText b) > 0)
       (map (\<lambda>(i, p). \<lparr>block_id = i + 1, startTime = ''00:00:00,000'',
                       endTime = ''00:00:00,000'', originalText = trim p,
                       translatedText = [], isTranslating = False\<rparr>)
            (enumerate 0 (split_blank content)))"

section \<open>The serialisers (services/parser.ts)\<close>

text \<open>\<^verbatim>\<open>block.translatedText || original\<close>: the empty string is the only falsy string.\<close>

definition translated_or_original :: "SubtitleBlock \<Rightarrow> string" where
  "translated_or_original block =
     (if translatedText block \<noteq> [] then translatedText block else originalText block)"

definition srt_entry :: "OutputFormat \<Rightarrow> nat \<times> SubtitleBlock \<Rightarrow> string" where
  "srt_entry format = (\<lambda>(index, block).
     let original = originalText block;
         translated = translated_or_original block;
         text = (case format of
                   ONLY_TRANSLATION \<Rightarrow> translated
                 | DUAL_TRANS_SRC \<Rightarrow> translated @ [LF] @ original
                 | DUAL_SRC_TRANS \<Rightarrow> original @ [LF] @ translated)
     in show_nat (index + 1) @ [LF] @ startTime block @ '' --> '' @ endTime block @ [LF]
        @ text @ [LF])"

definition stringifySRT :: "SubtitleBlock list \<Rightarrow> OutputFormat \<Rightarrow> string" where
  "stringifySRT blocks format = join [LF] (map (srt_entry format) (enumerate 0 blocks))"

definition lrc_entry :: "OutputFormat \<Rightarrow> SubtitleBlock \<Rightarrow> string" where
  "lrc_entry format block =
     (let timeTag = ''['' @ startTime block @ '']'';
          original = originalText block;
          translated = translated_or_original block
      in case format of
           ONLY_TRANSLATION \<Rightarrow> timeTag @ translated
         | DUAL_TRANS_SRC \<Rightarrow> timeTag @ translated @ [LF] @ timeTag @ original
         | DUAL_SRC_TRANS \<Rightarrow> timeTag @ original @ [LF] @ timeTag @ translated)"

definition stringifyLRC :: "SubtitleBlock list \<Rightarrow> OutputFormat \<Rightarrow> string" where
  "stringifyLRC blocks format = join [LF] (map (lrc_entry format) blocks)"

text \<open>
  For the statements about the subtitle round trip: a text that holds a carriage return
  directly before a line feed; what every segment returned by \<^const>\<open>parseSRT\<close> satisfies;
  the serialised list from running index \<open>j\<close> on; and a list with its ids set to \<open>k\<close>,
  \<open>k + 1\<close>, ...
\<close>

fun includes_CRLF :: "string \<Rightarrow> bool" where
  "includes_CRLF (c # d # r) = ((c = CR \<and> d = LF) \<or> includes_CRLF (d # r))"
| "includes_CRLF s = False"

definition srt_cue :: "SubtitleBlock \<Rightarrow> bool" where
  "srt_cue b \<longleftrightarrow> is_timestamp (startTime b) \<and> is_timestamp (endTime b)
     \<and> originalText b \<noteq> [] \<and> trim (originalText b) = originalText b
     \<and> first_sep (originalText b) = None \<and> translatedText b = [] \<and> \<not> isTranslating b"

text \<open>The lines that \<^const>\<open>srt_entry\<close> writes before the text of a cue.\<close>

definition cue_header :: "nat \<Rightarrow> SubtitleBlock \<Rightarrow> string" where
  "cue_header n b = show_nat n @ [LF] @ startTime b @ '' --> '' @ endTime b @ [LF]"

definition srt_text :: "nat \<Rightarrow> SubtitleBlock list \<Rightarrow> string" where
  "srt_text j bs = join [LF] (map (srt_entry ONLY_TRANSLATION) (enumerate j bs))"

fun renumber :: "nat \<Rightarrow> SubtitleBlock list \<Rightarrow> SubtitleBlock list" where
  "renumber k [] = []"
| "renumber k (b # bs) = b\<lparr>block_id := k\<rparr> # renumber (k + 1) bs"

text \<open>Two subtitle files: a cue whose text holds CR CR LF, and two plain cues.\<close>

definition crcrlf_subtitle :: string where
  "crcrlf_subtitle = ''1'' @ [LF] @ ''00:00:01,000 --> 00:00:02,000'' @ [LF]
                       @ ''Hello'' @ [CR, CR, LF] @ ''World''"

definition two_cues :: string where
  "two_cues = ''1'' @ [LF] @ ''00:00:01,000 --> 00:00:02,000'' @ [LF] @ ''Hello'' @ [LF, LF]
                @ ''2'' @ [LF] @ ''00:00:03,000 --> 00:00:04,000'' @ [LF] @ ''World'' @ [LF]"

text \<open>
  For the statements about the lyric output: the tag of a segment, the two lines that a
  dual mode is to emit for it, a text without line feed, and two examples.
\<close>

definition timeTag :: "SubtitleBlock \<Rightarrow> string" where
  "timeTag block = ''['' @ startTime block @ '']''"

definition dual_lines :: "OutputFormat \<Rightarrow> SubtitleBlock \<Rightarrow> string list" where
  "dual_lines format block =
     (case format of
        DUAL_SRC_TRANS \<Rightarrow> [timeTag block @ originalText block,
                           timeTag block @ translated_or_original block]
      | _ \<Rightarrow> [timeTag block @ translated_or_original block,
               timeTag block @ originalText block])"

definition single_line :: "string \<Rightarrow> bool" where
  "single_line s \<longleftrightarrow> LF \<notin> set s"

definition lyric_line :: "SubtitleBlock" where
  "lyric_line = \<lparr>block_id = 1, startTime = ''00:12.19'', endTime = [], originalText = ''La la'',
                  translatedText = ''Tra'' @ [LF] @ ''la'', isTranslating = False\<rparr>"

definition two_lyrics :: "SubtitleBlock list" where
  "two_lyrics =
     [\<lparr>block_id = 1, startTime = ''00:12.19'', endTime = [], originalText = ''La la'',
       translatedText = ''Tra la'', isTranslating = False\<rparr>,
      \<lparr>block_id = 2, startTime = ''00:17.50'', endTime = [], originalText = ''End'',
       translatedText = [], isTranslating = False\<rparr>]"

section \<open>The batch translator (services/geminiService.ts)\<close>

datatype LLMProvider = GEMINI | CUSTOM

record CustomLLMConfig =
  baseUrl :: string
  apiKey :: string
  config_modelName :: string

text \<open>The field \<^verbatim>\<open>context\<close> is \<open>req_context\<close> here, and \<^verbatim>\<open>undefined\<close> is \<open>None\<close>.\<close>

record TranslationRequest =
  texts :: "string list"
  targetLanguage :: string
  tone :: string
  modelName :: string
  req_context :: "string option"
  provider :: LLMProvider
  customConfig :: "CustomLLMConfig option"

text \<open>What a \<^verbatim>\<open>throw\<close> carries: an \<^verbatim>\<open>Error\<close> with its message, or a \<^verbatim>\<open>TypeError\<close>.\<close>

datatype js_error = Error string | TypeError string

text \<open>
  The value \<^verbatim>\<open>JSON.parse\<close> returns. An array has string elements, as the result type
  \<^verbatim>\<open>Promise<string[]>\<close> of the function and the schema it sends have it; an object is the
  list of its members, read with \<^const>\<open>map_of\<close>.
\<close>

datatype json =
    JNull
  | JBool bool
  | JNumber int
  | JString string
  | JArray "string list"
  | JObject "(string \<times> json) list"

text \<open>
  The outside world. \<^verbatim>\<open>JSON.parse\<close> is a parameter \<open>parse\<close> (\<open>None\<close> where it throws).
  The provider is asked once per attempt; what it does at attempt \<open>k\<close> is
  \<^item> for Gemini, \<open>generateContent w k\<close>: the call rejects with an error, or resolves with
    \<^verbatim>\<open>response.text\<close>, which may be undefined;
  \<^item> for the OpenAI-compatible endpoint, \<open>fetch_chat w k\<close>: \<^verbatim>\<open>fetch\<close> or the reading of the
    body rejects, or the status is not ok (status and body text), or the body is read
    and \<^verbatim>\<open>data.choices?.[0]?.message?.content\<close> is a string or undefined.
\<close>

datatype fetch_reply =
    FetchRejects js_error
  | NotOk nat string
  | Content "string option"

record world =
  generateContent :: "nat \<Rightarrow> js_error + string option"
  fetch_chat :: "nat \<Rightarrow> fetch_reply"

text \<open>
  What the function does besides returning: the request of attempt \<open>k\<close> sent, a delay waited
  (in milliseconds), and the two \<^verbatim>\<open>console.warn\<close> calls: a failed attempt with its
  number and error, and the merge of an over-split answer with the number of its parts.
\<close>

datatype effect = Sent nat | Waited nat | Warned nat js_error | MergeWarned nat

text \<open>
  \<^verbatim>\<open>jsonText.replace(/```json\n?|\n?```/g, "")\<close>: at each position the first alternative
  is tried before the second, and an optional line feed is taken when it is there.
\<close>

function strip_fences :: "string \<Rightarrow> string" where
  "strip_fences [] = []"
| "strip_fences (c # r) =
     (if take 7 (c # r) = ''```json'' then
        strip_fences (drop (if take 1 (drop 7 (c # r)) = [LF] then 8 else 7) (c # r))
      else if take 4 (c # r) = LF # ''```'' then strip_fences (drop 4 (c # r))
      else if take 3 (c # r) = ''```'' then strip_fences (drop 3 (c # r))
      else c # strip_fences r)"
  by pat_completeness auto
termination
  by (relation "measure length") auto

text \<open>\<^verbatim>\<open>!customConfig?.baseUrl || !customConfig?.apiKey\<close>\<close>

definition missing_config :: "CustomLLMConfig option \<Rightarrow> bool" where
  "missing_config c = (case c of None \<Rightarrow> True | Some cfg \<Rightarrow> baseUrl cfg = [] \<or> apiKey cfg = [])"

text \<open>The first half of the \<^verbatim>\<open>try\<close> block: the effects and the text of the response.\<close>

definition request_jsonText ::
  "world \<Rightarrow> TranslationRequest \<Rightarrow> nat \<Rightarrow> effect list \<times> (js_error + string)" where
  "request_jsonText w req attempt =
     (case provider req of
        GEMINI \<Rightarrow>
          ([Sent attempt],
           case generateContent w attempt of
             Inl e \<Rightarrow> Inl e
           | Inr None \<Rightarrow> Inr []
           | Inr (Some t) \<Rightarrow> Inr t)
      | CUSTOM \<Rightarrow>
          if missing_config (customConfig req) then
            ([], Inl (Error ''Missing Custom Provider Configuration''))
          else
            ([Sent attempt],
             case fetch_chat w attempt of
               FetchRejects e \<Rightarrow> Inl e
             | NotOk status errText \<Rightarrow>
                 Inl (Error (''Custom API Error '' @ show_nat status @ '': '' @ errText))
             | Content None \<Rightarrow> Inl (Error ''Empty response from Custom API'')
             | Content (Some content) \<Rightarrow>
                 if content = [] then Inl (Error ''Empty response from Custom API'')
                 else Inr content))"

text \<open>
  The second half: parsing and validation. \<^verbatim>\<open>parsed.translations\<close> throws a TypeError on
  \<^verbatim>\<open>null\<close>, is undefined on a boolean, number, string or array, and is the member of that
  name on an object.
\<close>

definition validate ::
  "(string \<Rightarrow> json option) \<Rightarrow> string list \<Rightarrow> string
     \<Rightarrow> effect list \<times> (js_error + string list)" where
  "validate parse txts jsonText =
     (let cleanJson = trim (strip_fences jsonText) in
      case parse cleanJson of
        None \<Rightarrow>
          ([], Inl (Error (''Failed to parse JSON response: '' @ take 50 cleanJson @ ''...'')))
      | Some JNull \<Rightarrow> ([], Inl (TypeError ''Cannot read properties of null''))
      | Some (JObject members) \<Rightarrow>
          (case map_of members ''translations'' of
             Some (JArray translations) \<Rightarrow>
               if length txts = 1 \<and> length translations > 1 then
                 ([MergeWarned (length translations)], Inr [join [LF] translations])
               else if length translations \<noteq> length txts then
                 ([], Inl (Error (''Length mismatch: Expected '' @ show_nat (length txts)
                                  @ '', got '' @ show_nat (length translations))))
               else ([], Inr translations)
           | _ \<Rightarrow> ([], Inl (Error ''Invalid JSON structure: missing 'translations' array'')))
      | Some _ \<Rightarrow> ([], Inl (Error ''Invalid JSON structure: missing 'translations' array'')))"

text \<open>One pass through the \<^verbatim>\<open>try\<close> block.\<close>

definition attempt_once ::
  "(string \<Rightarrow> json option) \<Rightarrow> world \<Rightarrow> TranslationRequest \<Rightarrow> nat
     \<Rightarrow> effect list \<times> (js_error + string list)" where
  "attempt_once parse w req attempt =
     (case request_jsonText w req attempt of
        (effs, Inl e) \<Rightarrow> (effs, Inl e)
      | (effs, Inr jsonText) \<Rightarrow>
          (case validate parse (texts req) jsonText of (effs', r) \<Rightarrow> (effs @ effs', r)))"

definition maxRetries :: nat where
  "maxRetries = 3"

text \<open>
  The \<^verbatim>\<open>while\<close> loop with its \<^verbatim>\<open>catch\<close>: a failed attempt is logged under the number
  \<^verbatim>\<open>attempt + 1\<close> and the counter is incremented; the error is thrown again when the
  counter has reached \<^const>\<open>maxRetries\<close>, otherwise the loop waits
  \<^verbatim>\<open>1000 * Math.pow(2, attempt - 1)\<close> milliseconds, with the incremented counter.
\<close>

function translateBatch_loop ::
  "(string \<Rightarrow> json option) \<Rightarrow> world \<Rightarrow> TranslationRequest \<Rightarrow> nat
     \<Rightarrow> effect list \<times> (js_error + string list)" where
  "translateBatch_loop parse w req attempt =
     (if attempt < maxRetries then
        (case attempt_once parse w req attempt of
           (effs, Inr translations) \<Rightarrow> (effs, Inr translations)
         | (effs, Inl error) \<Rightarrow>
             if attempt + 1 = maxRetries then (effs @ [Warned (attempt + 1) error], Inl error)
             else (case translateBatch_loop parse w req (attempt + 1) of
                     (effs', r) \<Rightarrow>
                       (effs @ [Warned (attempt + 1) error, Waited (1000 * 2 ^ (attempt + 1 - 1))]
                          @ effs', r)))
      else ([], Inl (Error ''Unexpected error in translation loop'')))"
  by pat_completeness auto
termination
  by (relation "measure (\<lambda>(parse, w, req, attempt). maxRetries - attempt)") auto

declare translateBatch_loop.simps [simp del]

definition translateBatch ::
  "(string \<Rightarrow> json option) \<Rightarrow> world \<Rightarrow> TranslationRequest
     \<Rightarrow> effect list \<times> (js_error + string list)" where
  "translateBatch parse w req = translateBatch_loop parse w req 0"

text \<open>Reading a list of effects: the delays, the failed attempts, the waits and warnings of
  the retry loop in their order, and the requests sent.\<close>

fun waits :: "effect list \<Rightarrow> nat list" where
  "waits [] = []"
| "waits (Waited ms # es) = ms # waits es"
| "waits (e # es) = waits es"

fun failures :: "effect list \<Rightarrow> (nat \<times> js_error) list" where
  "failures [] = []"
| "failures (Warned k e # es) = (k, e) # failures es"
| "failures (e # es) = failures es"

fun retry_events :: "effect list \<Rightarrow> effect list" where
  "retry_events [] = []"
| "retry_events (Waited ms # es) = Waited ms # retry_events es"
| "retry_events (Warned k e # es) = Warned k e # retry_events es"
| "retry_events (e # es) = retry_events es"

fun requests :: "effect list \<Rightarrow> nat list" where
  "requests [] = []"
| "requests (Sent k # es) = k # requests es"
| "requests (e # es) = requests es"


text \<open>Concrete surroundings for the examples: a parser, provider behaviours and a request.\<close>

definition no_parse :: "string \<Rightarrow> json option" where
  "no_parse s = None"

definition offline :: world where
  "offline = \<lparr>generateContent = (\<lambda>k. Inl (Error ''offline'')),
              fetch_chat = (\<lambda>k. FetchRejects (Error ''offline''))\<rparr>"

definition request_of :: "string list \<Rightarrow> LLMProvider \<Rightarrow> CustomLLMConfig option \<Rightarrow> TranslationRequest" where
  "request_of txts p c =
     \<lparr>texts = txts, targetLanguage = ''zh-CN'', tone = ''t'', modelName = ''m'',
      req_context = None, provider = p, customConfig = c\<rparr>"

definition answers :: "string \<Rightarrow> world" where
  "answers t = \<lparr>generateContent = (\<lambda>k. Inr (Some t)), fetch_chat = (\<lambda>k. Content (Some t))\<rparr>"

definition parse_ab :: "string \<Rightarrow> json option" where
  "parse_ab s = Some (JObject [(''translations'', JArray [''a'', ''b''])])"

section \<open>The driver (App.tsx)\<close>

text \<open>The settings of the component that a run reads.\<close>

record Settings =
  targetLang :: string
  selectedTone :: string
  app_provider :: LLMProvider
  geminiModel :: string
  app_customConfig :: CustomLLMConfig

text \<open>
  What a run of \<^verbatim>\<open>startTranslation\<close> leaves behind: the segment list held by the component
  (the state that every \<^verbatim>\<open>setBlocks(prev => ...)\<close> updates), the flag \<^verbatim>\<open>isProcessing\<close>, the
  calls of \<^verbatim>\<open>translateBatch\<close> in order, each with its outcome, and the error of the
  \<^verbatim>\<open>catch\<close> branch. The progress percentage is not kept.
\<close>

record run =
  current :: "SubtitleBlock list"
  isProcessing :: bool
  calls :: "(TranslationRequest \<times> (js_error + string list)) list"
  caught :: "js_error option"

definition BATCH_SIZE :: nat where
  "BATCH_SIZE = 10"

text \<open>\<^verbatim>\<open>Math.ceil(blocks.length / BATCH_SIZE)\<close>\<close>

definition totalBatches :: "SubtitleBlock list \<Rightarrow> nat" where
  "totalBatches blocks = (length blocks + BATCH_SIZE - 1) div BATCH_SIZE"

text \<open>\<^verbatim>\<open>translatedTexts[k] || original\<close>: an index out of range reads \<^verbatim>\<open>undefined\<close>.\<close>

definition text_or :: "string list \<Rightarrow> nat \<Rightarrow> string \<Rightarrow> string" where
  "text_or translatedTexts k original =
     (if k < length translatedTexts \<and> translatedTexts ! k \<noteq> [] then translatedTexts ! k
      else original)"

text \<open>The three state updates of the loop.\<close>

definition mark_translating :: "nat \<Rightarrow> nat \<Rightarrow> SubtitleBlock list \<Rightarrow> SubtitleBlock list" where
  "mark_translating startIdx endIdx prev =
     map (\<lambda>(idx, b). if idx \<ge> startIdx \<and> idx < endIdx then b\<lparr>isTranslating := True\<rparr> else b)
       (enumerate 0 prev)"

definition store_translations ::
  "nat \<Rightarrow> nat \<Rightarrow> string list \<Rightarrow> SubtitleBlock list \<Rightarrow> SubtitleBlock list" where
  "store_translations startIdx endIdx translatedTexts prev =
     map (\<lambda>(idx, b).
            if idx \<ge> startIdx \<and> idx < endIdx then
              b\<lparr>translatedText := text_or translatedTexts (idx - startIdx) (originalText b),
                isTranslating := False\<rparr>
            else b)
       (enumerate 0 prev)"

definition clear_translating :: "SubtitleBlock list \<Rightarrow> SubtitleBlock list" where
  "clear_translating prev = map (\<lambda>b. b\<lparr>isTranslating := False\<rparr>) prev"

text \<open>The request of chunk \<open>i\<close>, built from the list \<open>blocks\<close> that the handler closes over.\<close>

definition chunk_request :: "Settings \<Rightarrow> SubtitleBlock list \<Rightarrow> nat \<Rightarrow> TranslationRequest" where
  "chunk_request cfg blocks i =
     (let startIdx = i * BATCH_SIZE;
          endIdx = min (startIdx + BATCH_SIZE) (length blocks);
          batch = take (endIdx - startIdx) (drop startIdx blocks);
          sourceTexts = map originalText batch
      in \<lparr>texts = sourceTexts,
          targetLanguage = targetLang cfg,
          tone = selectedTone cfg,
          modelName = (if app_provider cfg = GEMINI then geminiModel cfg
                       else config_modelName (app_customConfig cfg)),
          req_context = (if i > 0 then
                           Some (''Previous sentence: '' @ translatedText (blocks ! (startIdx - 1)))
                         else None),
          provider = app_provider cfg,
          customConfig = (if app_provider cfg = CUSTOM then Some (app_customConfig cfg)
                          else None)\<rparr>)"

text \<open>
  The \<^verbatim>\<open>for\<close> loop. \<open>blocks\<close> is the constant of the render in which the handler was
  created: the loop reads its length, its slices and \<^verbatim>\<open>blocks[startIdx - 1]\<close> from it for
  the whole run, while the updates go to the state of the component, \<open>current\<close>. The
  provider's behaviour during the call of chunk \<open>i\<close> is \<open>ws i\<close>.
\<close>

function startTranslation_loop ::
  "(string \<Rightarrow> json option) \<Rightarrow> (nat \<Rightarrow> world) \<Rightarrow> Settings \<Rightarrow> SubtitleBlock list \<Rightarrow> nat
     \<Rightarrow> run \<Rightarrow> run" where
  "startTranslation_loop parse ws cfg blocks i st =
     (if i < totalBatches blocks then
        let startIdx = i * BATCH_SIZE;
            endIdx = min (startIdx + BATCH_SIZE) (length blocks);
            marked = mark_translating startIdx endIdx (current st);
            req = chunk_request cfg blocks i;
            outcome = snd (translateBatch parse (ws i) req);
            log = calls st @ [(req, outcome)]
        in case outcome of
             Inr translatedTexts \<Rightarrow>
               startTranslation_loop parse ws cfg blocks (i + 1)
                 (st\<lparr>current := store_translations startIdx endIdx translatedTexts marked,
                     calls := log\<rparr>)
           | Inl error \<Rightarrow>
               st\<lparr>current := clear_translating marked, isProcessing := False, calls := log,
                  caught := Some error\<rparr>
      else st\<lparr>isProcessing := False\<rparr>)"
  by pat_completeness auto
termination
  by (relation "measure (\<lambda>(parse, ws, cfg, blocks, i, st). totalBatches blocks - i)") auto

declare startTranslation_loop.simps [simp del]

definition startTranslation ::
  "(string \<Rightarrow> json option) \<Rightarrow> (nat \<Rightarrow> world) \<Rightarrow> Settings \<Rightarrow> SubtitleBlock list \<Rightarrow> run" where
  "startTranslation parse ws cfg blocks =
     (if length blocks = 0 then
        \<lparr>current = blocks, isProcessing = False, calls = [], caught = None\<rparr>
      else startTranslation_loop parse ws cfg blocks 0
             \<lparr>current = blocks, isProcessing = True, calls = [], caught = None\<rparr>)"

text \<open>The call of chunk \<open>j\<close> as the loop logs it: the request and the outcome of \<^const>\<open>translateBatch\<close>.\<close>

definition chunk_call ::
  "(string \<Rightarrow> json option) \<Rightarrow> (nat \<Rightarrow> world) \<Rightarrow> Settings \<Rightarrow> SubtitleBlock list \<Rightarrow> nat
     \<Rightarrow> TranslationRequest \<times> (js_error + string list)" where
  "chunk_call parse ws cfg blocks j =
     (chunk_request cfg blocks j, snd (translateBatch parse (ws j) (chunk_request cfg blocks j)))"

text \<open>
  The shape of the state \<open>r\<close> that the loop reaches from the state \<open>st\<close> at chunk \<open>i\<close>, when
  it has made the calls of the chunks \<open>i\<close> to \<open>m - 1\<close>: the log; how the run ended (all
  chunks done and successful, or the last call failed, the ones before it succeeded and
  every flag is cleared); and, segment by segment, the texts: the segments of the
  successful chunks hold \<^const>\<open>text_or\<close> of the answer, all others what they held in \<open>st\<close>.
\<close>

definition run_shape ::
  "(string \<Rightarrow> json option) \<Rightarrow> (nat \<Rightarrow> world) \<Rightarrow> Settings \<Rightarrow> SubtitleBlock list \<Rightarrow> nat
     \<Rightarrow> run \<Rightarrow> run \<Rightarrow> nat \<Rightarrow> bool" where
  "run_shape parse ws cfg blocks i st r m \<longleftrightarrow>
     i \<le> m \<and> m \<le> totalBatches blocks
   \<and> calls r = calls st @ map (chunk_call parse ws cfg blocks) [i..<m]
   \<and> (case caught r of
        None \<Rightarrow> m = totalBatches blocks
                 \<and> (\<forall>j. i \<le> j \<and> j < m \<longrightarrow> \<not> isl (snd (chunk_call parse ws cfg blocks j)))
      | Some e \<Rightarrow> i < m \<and> snd (chunk_call parse ws cfg blocks (m - 1)) = Inl e
                 \<and> (\<forall>j. i \<le> j \<and> j < m - 1 \<longrightarrow> \<not> isl (snd (chunk_call parse ws cfg blocks j)))
                 \<and> (\<forall>b \<in> set (current r). \<not> isTranslating b))
   \<and> length (current r) = length blocks
   \<and> \<not> isProcessing r
   \<and> (\<forall>idx < length blocks.
        originalText (current r ! idx) = originalText (current st ! idx)
        \<and> translatedText (current r ! idx)
          = (if i * 10 \<le> idx \<and> idx div 10 < m
                \<and> \<not> isl (snd (chunk_call parse ws cfg blocks (idx div 10)))
             then text_or (projr (snd (chunk_call parse ws cfg blocks (idx div 10)))) (idx mod 10)
                    (originalText (current st ! idx))
             else translatedText (current st ! idx)))"

text \<open>Concrete surroundings for the examples of the driver.\<close>

definition settings0 :: Settings where
  "settings0 = \<lparr>targetLang = ''zh-CN'', selectedTone = ''formal'', app_provider = GEMINI,
                 geminiModel = ''gemini-2.5-flash'',
                 app_customConfig = \<lparr>baseUrl = ''https://api.openai.com/v1'', apiKey = [],
                                     config_modelName = ''gpt-4o-mini''\<rparr>\<rparr>"

definition segment :: "nat \<Rightarrow> string \<Rightarrow> string \<Rightarrow> SubtitleBlock" where
  "segment n original translated =
     \<lparr>block_id = n, startTime = ''00:00:00,000'', endTime = ''00:00:00,000'',
      originalText = original, translatedText = translated, isTranslating = False\<rparr>"

definition twelve_segments :: "SubtitleBlock list" where
  "twelve_segments = map (\<lambda>n. segment (n + 1) (''s'' @ show_nat n) []) [0..<12]"

definition parse_numbered :: "string \<Rightarrow> json option" where
  "parse_numbered s =
     (if s = ''0'' then Some (JObject [(''translations'', JArray (map (\<lambda>k. ''T'' @ show_nat k) [0..<10]))])
      else Some (JObject [(''translations'', JArray [''T10'', ''T11''])]))"

definition answers_chunk_number :: "nat \<Rightarrow> world" where
  "answers_chunk_number i = answers (show_nat i)"



definition parse_empty_translation :: "string \<Rightarrow> json option" where
  "parse_empty_translation s = Some (JObject [(''translations'', JArray [[]])])"

definition three_translated :: "SubtitleBlock list" where
  "three_translated = [segment 1 ''a'' ''A'', segment 2 ''b'' ''B'', segment 3 ''c'' ''C'']"

definition three_paragraphs :: string where
  "three_paragraphs = ''x'' @ [LF, LF] @ ''y'' @ [LF, LF] @ ''z''"

text \<open>The effect that parses again when the content type changes.\<close>

definition parse_as :: "ContentType \<Rightarrow> string \<Rightarrow> SubtitleBlock list" where
  "parse_as contentType rawText =
     (if contentType = SUBTITLE_SRT then parseSRT rawText
      else if contentType = LYRICS_LRC then parseLRC rawText
      else parsePlainText rawText)"

definition reparse :: "string \<Rightarrow> ContentType \<Rightarrow> SubtitleBlock list \<Rightarrow> SubtitleBlock list" where
  "reparse rawText contentType blocks =
     (if rawText = [] then blocks
      else
        let currentTranslations = map translatedText blocks;
            newBlocks = parse_as contentType rawText
        in if length newBlocks = length currentTranslations then
             map (\<lambda>(i, b). b\<lparr>translatedText := currentTranslations ! i\<rparr>) (enumerate 0 newBlocks)
           else newBlocks)"

section \<open>Properties of the parsers\<close>

text \<open>
  The texts of \<^const>\<open>parsePlainText\<close> are the trimmed paragraphs that are not empty, in
  their order, and both time stamps of every segment are the placeholder.
\<close>

lemma parsePlainText_segments:
  "map originalText (parsePlainText content)
     = filter (\<lambda>t. t \<noteq> []) (map trim (split_blank content))"
  and "\<forall>b \<in> set (parsePlainText content).
         startTime b = ''00:00:00,000'' \<and> endTime b = ''00:00:00,000''"
proof -
  have "map originalText (parsePlainText content)
      = filter (\<lambda>t. t \<noteq> []) (map (\<lambda>(i, p). trim p) (enumerate 0 (split_blank content)))"
    by (simp add: parsePlainText_def filter_map comp_def split_def)
  also have "map (\<lambda>(i, p). trim p) (enumerate 0 (split_blank content))
      = map trim (split_blank content)"
    by (simp add: list_eq_iff_nth_eq nth_enumerate_eq)
  finally show "map originalText (parsePlainText content)
     = filter (\<lambda>t. t \<noteq> []) (map trim (split_blank content))" .
  show "\<forall>b \<in> set (parsePlainText content).
         startTime b = ''00:00:00,000'' \<and> endTime b = ''00:00:00,000''"
    by (auto simp: parsePlainText_def)
qed

text \<open>
  C2. The code does not do what the claim says about the ids: they are the positions
  before the empty paragraphs are filtered out. On a text that starts with a blank line
  the only segment has id 2, where the sequence 1..N asks for 1.
\<close>

theorem parsePlainText_leading_blank_id:
  "parsePlainText (LF # LF # ''Hi'') =
     [\<lparr>block_id = 2, startTime = ''00:00:00,000'', endTime = ''00:00:00,000'',
       originalText = ''Hi'', translatedText = [], isTranslating = False\<rparr>]"
  by code_simp

section \<open>The subtitle round trip\<close>

subsection \<open>trim\<close>

lemma last_dropWhile: "dropWhile P xs \<noteq> [] \<Longrightarrow> last (dropWhile P xs) = last xs"
  by (induction xs) (auto split: if_splits)

lemma trim_Nil [simp]: "trim [] = []"
  by (simp add: trim_def)

lemma trim_ends:
  assumes "trim s \<noteq> []"
  shows "\<not> is_ws (hd (trim s))" and "\<not> is_ws (last (trim s))"
proof -
  let ?d = "dropWhile is_ws s"
  let ?e = "dropWhile is_ws (rev ?d)"
  from assms have e: "?e \<noteq> []" by (simp add: trim_def)
  have d: "?d \<noteq> []"
  proof
    assume "?d = []"
    with e show False by simp
  qed
  have "hd (trim s) = last ?e" using e by (simp add: trim_def hd_rev)
  also have "\<dots> = last (rev ?d)" using e by (rule last_dropWhile)
  also have "\<dots> = hd ?d" using d by (simp add: last_rev)
  finally show "\<not> is_ws (hd (trim s))" using d hd_dropWhile [of is_ws s] by simp
  have "last (trim s) = hd ?e" using e by (simp add: trim_def last_rev)
  then show "\<not> is_ws (last (trim s))" using e hd_dropWhile [of is_ws "rev ?d"] by simp
qed

lemma trim_fixed:
  assumes "t \<noteq> []" "\<not> is_ws (hd t)" "\<not> is_ws (last t)"
  shows "trim t = t"
proof -
  from assms have 1: "dropWhile is_ws t = t" by (cases t) auto
  from assms have "rev t \<noteq> []" "\<not> is_ws (hd (rev t))" by (simp_all add: hd_rev)
  then have "dropWhile is_ws (rev t) = rev t" by (cases "rev t") auto
  with 1 show ?thesis by (simp add: trim_def)
qed

lemma trim_idem: "trim (trim s) = trim s"
  by (cases "trim s = []") (simp_all add: trim_fixed trim_ends)

lemma trim_decomp: "\<exists>u v. s = u @ trim s @ v"
proof -
  let ?d = "dropWhile is_ws s"
  have "rev ?d = takeWhile is_ws (rev ?d) @ dropWhile is_ws (rev ?d)" by simp
  then have "?d = rev (dropWhile is_ws (rev ?d)) @ rev (takeWhile is_ws (rev ?d))"
    by (metis rev_append rev_rev_ident)
  then have "s = takeWhile is_ws s @ trim s @ rev (takeWhile is_ws (rev ?d))"
    by (metis takeWhile_dropWhile_id trim_def)
  then show ?thesis by blast
qed

lemma dropWhile_all: "\<forall>x \<in> set s. P x \<Longrightarrow> dropWhile P s = []"
  by (induction s) auto

lemma trim_snoc_ws:
  assumes "is_ws c"
  shows "trim (s @ [c]) = trim s"
proof (cases "\<forall>x \<in> set s. is_ws x")
  case True
  with assms have "\<forall>x \<in> set (s @ [c]). is_ws x" by simp
  then have a: "dropWhile is_ws (s @ [c]) = []" by (rule dropWhile_all)
  from True have b: "dropWhile is_ws s = []" by (rule dropWhile_all)
  show ?thesis unfolding trim_def a b by (rule refl)
next
  case False
  then obtain x where "x \<in> set s" "\<not> is_ws x" by blast
  then have "dropWhile is_ws (s @ [c]) = dropWhile is_ws s @ [c]"
    by (rule dropWhile_append1)
  with assms show ?thesis by (simp add: trim_def)
qed

lemma trim_nonempty: "s \<noteq> [] \<Longrightarrow> \<not> is_ws (hd s) \<Longrightarrow> trim (s @ r) \<noteq> []"
  by (cases s) (auto simp: trim_def)

subsection \<open>join and split\<close>

lemma split_LF_nonempty [simp]: "split_LF s \<noteq> []"
  by (induction s) (auto split: list.splits)

lemma join_split_LF: "join [LF] (split_LF s) = s"
proof (induction s)
  case Nil
  then show ?case by simp
next
  case (Cons c r)
  obtain p ps where ps: "split_LF r = p # ps" by (cases "split_LF r") auto
  with Cons show ?case by (cases ps) auto
qed

lemma join_append:
  "xs \<noteq> [] \<Longrightarrow> ys \<noteq> [] \<Longrightarrow> join sep (xs @ ys) = join sep xs @ sep @ join sep ys"
  by (induction sep xs rule: join.induct) (auto simp: neq_Nil_conv)

lemma split_LF_single: "LF \<notin> set a \<Longrightarrow> split_LF a = [a]"
  by (induction a) auto

lemma split_LF_first_line: "LF \<notin> set a \<Longrightarrow> split_LF (a @ LF # b) = a # split_LF b"
  by (induction a) auto

subsection \<open>The blank-line separator\<close>

lemma sep_rest_None_iff:
  "sep_rest (c # r) = None \<longleftrightarrow> \<not> (c = LF \<and> LF \<in> set (takeWhile is_ws r))"
  by (simp add: Let_def)

lemma first_sep_Cons_None:
  "first_sep (c # r) = None \<longleftrightarrow> sep_rest (c # r) = None \<and> first_sep r = None"
  by (auto split: option.splits)

lemma set_takeWhile_append: "set (takeWhile P a) \<subseteq> set (takeWhile P (a @ b))"
  by (induction a) auto

lemma sep_rest_prefix_None: "sep_rest (c # a @ b) = None \<Longrightarrow> sep_rest (c # a) = None"
  unfolding sep_rest_None_iff using set_takeWhile_append [of is_ws a b] by blast

lemma first_sep_suffix_None: "first_sep (a @ b) = None \<Longrightarrow> first_sep b = None"
  by (induction a) (simp_all add: first_sep_Cons_None del: first_sep.simps sep_rest.simps)

lemma first_sep_prefix_None: "first_sep (a @ b) = None \<Longrightarrow> first_sep a = None"
proof (induction a)
  case Nil
  then show ?case by simp
next
  case (Cons c a)
  then have "sep_rest (c # a @ b) = None" "first_sep (a @ b) = None"
    using first_sep_Cons_None [of c "a @ b"] by simp_all
  with Cons.IH sep_rest_prefix_None show ?case
    using first_sep_Cons_None [of c a] by blast
qed

lemma first_sep_is_prefix: "first_sep s = Some (p, rest) \<Longrightarrow> \<exists>x. s = p @ x"
proof (induction s arbitrary: p)
  case Nil
  then show ?case by simp
next
  case (Cons c r)
  show ?case
  proof (cases "sep_rest (c # r)")
    case None
    with Cons.prems obtain p' where "first_sep r = Some (p', rest)" "p = c # p'" by auto
    with Cons.IH show ?thesis by fastforce
  next
    case (Some a)
    with Cons.prems have "p = []" by simp
    then show ?thesis by simp
  qed
qed

lemma first_sep_piece_None: "first_sep s = Some (p, rest) \<Longrightarrow> first_sep p = None"
proof (induction s arbitrary: p)
  case Nil
  then show ?case by simp
next
  case (Cons c r)
  show ?case
  proof (cases "sep_rest (c # r)")
    case None
    with Cons.prems obtain p' where p': "first_sep r = Some (p', rest)" "p = c # p'" by auto
    then obtain x where "r = p' @ x" using first_sep_is_prefix by blast
    with None have "sep_rest (c # p') = None" using sep_rest_prefix_None by blast
    moreover have "first_sep p' = None" using Cons.IH p'(1) by blast
    ultimately show ?thesis unfolding p'(2) first_sep_Cons_None by blast
  next
    case (Some a)
    with Cons.prems have "p = []" by simp
    then show ?thesis by simp
  qed
qed

lemma split_blank_None: "first_sep s = None \<Longrightarrow> split_blank s = [s]"
  by (subst split_blank.simps) simp

lemma split_blank_Some: "first_sep s = Some (p, rest) \<Longrightarrow> split_blank s = p # split_blank rest"
  by (subst split_blank.simps) simp

lemma split_blank_pieces: "p \<in> set (split_blank s) \<Longrightarrow> first_sep p = None"
proof (induction "length s" arbitrary: s rule: less_induct)
  case less
  show ?case
  proof (cases "first_sep s")
    case None
    with less.prems show ?thesis by (simp add: split_blank_None)
  next
    case (Some a)
    obtain q rest where a: "a = (q, rest)" by (cases a)
    with Some less.prems have "p = q \<or> p \<in> set (split_blank rest)"
      by (simp add: split_blank_Some)
    moreover have "first_sep q = None" using Some a by (blast intro: first_sep_piece_None)
    moreover have "length rest < length s" using Some a by (blast intro: first_sep_shorter)
    ultimately show ?thesis using less.hyps by blast
  qed
qed


subsection \<open>What parseSRT returns\<close>

lemma time_match_here_timestamps:
  "time_match_here s = Some (t1, t2) \<Longrightarrow> is_timestamp t1 \<and> is_timestamp t2"
  by (auto simp: time_match_here_def Let_def split: if_splits)

lemma time_match_timestamps:
  "time_match s = Some (t1, t2) \<Longrightarrow> is_timestamp t1 \<and> is_timestamp t2"
proof (induction s)
  case Nil
  then show ?case by simp
next
  case (Cons c r)
  then show ?case
    by (cases "time_match_here (c # r)") (auto dest: time_match_here_timestamps)
qed

lemma text_of_block:
  assumes "first_sep p = None"
    and "cue = trim (join [LF] (drop k (split_LF p)))"
    and "cue \<noteq> []"
  shows "trim cue = cue" and "first_sep cue = None"
proof -
  show "trim cue = cue" using assms(2) by (simp add: trim_idem)
  let ?lines = "split_LF p"
  let ?raw = "join [LF] (drop k ?lines)"
  have "first_sep ?raw = None"
  proof (cases "take k ?lines = []")
    case True
    then have "drop k ?lines = ?lines" by (metis append_Nil append_take_drop_id)
    with assms(1) show ?thesis by (simp add: join_split_LF)
  next
    case False
    have d: "drop k ?lines \<noteq> []" using assms(2,3) by auto
    have "p = join [LF] (take k ?lines @ drop k ?lines)" by (simp add: join_split_LF)
    also have "\<dots> = (join [LF] (take k ?lines) @ [LF]) @ ?raw"
      by (simp only: join_append [OF False d] append_assoc)
    finally show ?thesis using assms(1) first_sep_suffix_None by metis
  qed
  moreover obtain u v where "?raw = u @ cue @ v" using trim_decomp assms(2) by metis
  ultimately show "first_sep cue = None"
    using first_sep_suffix_None first_sep_prefix_None by metis
qed

lemma parse_block_Some:
  assumes "parse_block p = Some (t1, t2, cue)" and "first_sep p = None"
  shows "is_timestamp t1 \<and> is_timestamp t2 \<and> cue \<noteq> [] \<and> trim cue = cue
         \<and> first_sep cue = None"
proof -
  from assms(1) obtain k where
    tm: "time_match (split_LF p ! k) = Some (t1, t2)"
    and cue: "cue = trim (join [LF] (drop (k + 1) (split_LF p)))" and ne: "cue \<noteq> []"
    by (auto simp: parse_block_def Let_def split: if_splits option.splits)
  from text_of_block [OF assms(2) cue ne] time_match_timestamps [OF tm] ne
  show ?thesis by simp
qed

lemma parseSRT_loop_cues:
  "b \<in> set (parseSRT_loop n ps) \<Longrightarrow> \<forall>p \<in> set ps. first_sep p = None \<Longrightarrow> srt_cue b"
proof (induction ps arbitrary: n)
  case Nil
  then show ?case by simp
next
  case (Cons p ps)
  show ?case
  proof (cases "parse_block p")
    case None
    with Cons show ?thesis by simp
  next
    case (Some a)
    obtain t1 t2 cue where a: "a = (t1, t2, cue)" by (cases a)
    from Cons.prems(2) have "first_sep p = None" by simp
    from parse_block_Some [OF Some [unfolded a] this] Cons Some a show ?thesis
      by (auto simp: srt_cue_def)
  qed
qed

lemma parseSRT_loop_ids:
  "i < length (parseSRT_loop n ps) \<Longrightarrow> block_id (parseSRT_loop n ps ! i) = n + i"
proof (induction ps arbitrary: n i)
  case Nil
  then show ?case by simp
next
  case (Cons p ps)
  show ?case
  proof (cases "parse_block p")
    case None
    with Cons show ?thesis by simp
  next
    case (Some a)
    obtain t1 t2 cue where a: "a = (t1, t2, cue)" by (cases a)
    show ?thesis
    proof (cases i)
      case 0
      with Some a show ?thesis by simp
    next
      case (Suc j)
      with Cons.prems Some a have "j < length (parseSRT_loop (n + 1) ps)" by simp
      from Cons.IH [OF this] Some a Suc show ?thesis by simp
    qed
  qed
qed

lemma parseSRT_cues: "b \<in> set (parseSRT X) \<Longrightarrow> srt_cue b"
  unfolding parseSRT_def using parseSRT_loop_cues split_blank_pieces by blast


subsection \<open>Carriage returns\<close>

lemma replace_CRLF_id: "\<not> includes_CRLF s \<Longrightarrow> replace_CRLF s = s"
  by (induction s rule: replace_CRLF.induct) auto

lemma includes_CRLF_Cons:
  "includes_CRLF (c # s) \<longleftrightarrow> (c = CR \<and> s \<noteq> [] \<and> hd s = LF) \<or> includes_CRLF s"
  by (cases s) auto

lemma includes_CRLF_append:
  "includes_CRLF (a @ b) \<longleftrightarrow>
     includes_CRLF a \<or> includes_CRLF b \<or> (a \<noteq> [] \<and> b \<noteq> [] \<and> last a = CR \<and> hd b = LF)"
proof (induction a)
  case Nil
  then show ?case by simp
next
  case (Cons c a)
  show ?case
  proof (cases a)
    case Nil
    then show ?thesis by (auto simp add: includes_CRLF_Cons)
  next
    case (Cons d a')
    with Cons.IH show ?thesis
      unfolding includes_CRLF_Cons [of c] append_Cons by auto
  qed
qed

lemma no_CR_no_CRLF: "CR \<notin> set s \<Longrightarrow> \<not> includes_CRLF s"
  by (induction s rule: includes_CRLF.induct) auto

subsection \<open>Digits and time stamps\<close>

lemma digit_char_is_digit: "d < 10 \<Longrightarrow> is_digit (digit_char d)"
proof -
  assume "d < 10"
  then have "d < length ''0123456789''" by simp
  then have "''0123456789'' ! d \<in> set ''0123456789''" by (rule nth_mem)
  then show ?thesis unfolding is_digit_def digit_char_def .
qed

lemma show_nat_digits: "show_nat n \<noteq> [] \<and> (\<forall>c \<in> set (show_nat n). is_digit c)"
proof (induction n rule: show_nat.induct)
  case (1 n)
  show ?case
  proof (cases "n < 10")
    case True
    then show ?thesis by (subst (1 2) show_nat.simps) (simp add: digit_char_is_digit)
  next
    case False
    with 1 show ?thesis by (subst (1 2) show_nat.simps) (simp add: digit_char_is_digit)
  qed
qed

lemma digit_facts:
  assumes "is_digit c"
  shows "\<not> is_ws c" "c \<noteq> LF" "c \<noteq> CR" "c \<noteq> CHR ''-''"
  using assms by (auto simp: is_digit_def is_ws_def)

lemma includes_arrow_dash: "includes_arrow s \<Longrightarrow> CHR ''-'' \<in> set s"
  by (induction s rule: includes_arrow.induct) auto

lemma includes_arrow_Cons: "includes_arrow s \<Longrightarrow> includes_arrow (c # s)"
  by (cases s rule: includes_arrow.cases) auto

lemma includes_arrow_append: "includes_arrow b \<Longrightarrow> includes_arrow (a @ b)"
  by (induction a) (simp_all add: includes_arrow_Cons del: includes_arrow.simps)

lemma timestamp_chars:
  assumes "is_timestamp t" and "c \<in> set t"
  shows "is_digit c \<or> c = CHR '':'' \<or> c = CHR '',''"
proof -
  from assms(2) obtain i where i: "i < length t" "c = t ! i" by (auto simp: in_set_conv_nth)
  with assms(1) have "i < 12" by (simp add: is_timestamp_def)
  then have "i \<in> set [0..<12]" by simp
  moreover have "[0..<12] = [0, 1, 2, 3, 4, 5, 6, 7, 8, 9, 10, 11::nat]" by code_simp
  ultimately have "i = 0 \<or> i = 1 \<or> i = 2 \<or> i = 3 \<or> i = 4 \<or> i = 5 \<or> i = 6 \<or> i = 7 \<or> i = 8
      \<or> i = 9 \<or> i = 10 \<or> i = 11"
    by (simp del: upt_Suc set_upt)
  with assms(1) i(2) show ?thesis unfolding is_timestamp_def by auto
qed

lemma timestamp_facts:
  assumes "is_timestamp t"
  shows "LF \<notin> set t" "CR \<notin> set t" "t \<noteq> []" "\<not> is_ws (hd t)" "length t = 12"
proof -
  show "LF \<notin> set t" "CR \<notin> set t"
    using timestamp_chars [OF assms] by (auto simp: is_digit_def)
  show "length t = 12" using assms by (simp add: is_timestamp_def)
  then show "t \<noteq> []" by auto
  then have "hd t = t ! 0" by (simp add: hd_conv_nth)
  with assms show "\<not> is_ws (hd t)" by (simp add: is_timestamp_def digit_facts)
qed

lemma time_match_here_line:
  assumes "is_timestamp t1" "is_timestamp t2"
  shows "time_match_here (t1 @ '' --> '' @ t2) = Some (t1, t2)"
proof -
  from assms(2) obtain c r where t2: "t2 = c # r" "\<not> is_ws c"
    using timestamp_facts(3,4) [OF assms(2)] by (cases t2) auto
  have ws: "is_ws CHR '' ''" "\<not> is_ws CHR ''-''" by (simp_all add: is_ws_def)
  have l: "length t1 = 12" "length t2 = 12" using assms by (simp_all add: timestamp_facts)
  have "take 12 (t1 @ '' --> '' @ t2) = t1" "drop 12 (t1 @ '' --> '' @ t2) = '' --> '' @ t2"
    using l by simp_all
  moreover have "dropWhile is_ws ('' --> '' @ t2) = ''--> '' @ t2" using ws by simp
  moreover have "take 3 (''--> '' @ t2) = ''-->''" "drop 3 (''--> '' @ t2) = '' '' @ t2" by simp_all
  moreover have "dropWhile is_ws ('' '' @ t2) = t2" using ws t2 by simp
  moreover have "take 12 t2 = t2" using l by simp
  ultimately show ?thesis using assms by (simp add: time_match_here_def)
qed

lemma time_match_first:
  "s \<noteq> [] \<Longrightarrow> time_match_here s = Some m \<Longrightarrow> time_match s = Some m"
  by (cases s) simp_all

lemma time_match_line:
  assumes "is_timestamp t1" "is_timestamp t2"
  shows "time_match (t1 @ '' --> '' @ t2) = Some (t1, t2)"
proof (rule time_match_first)
  show "t1 @ '' --> '' @ t2 \<noteq> []" by simp
  show "time_match_here (t1 @ '' --> '' @ t2) = Some (t1, t2)"
    by (rule time_match_here_line [OF assms])
qed

lemma time_line_facts:
  assumes "is_timestamp t1" "is_timestamp t2"
  shows "LF \<notin> set (t1 @ '' --> '' @ t2)" "CR \<notin> set (t1 @ '' --> '' @ t2)"
    "includes_arrow (t1 @ '' --> '' @ t2)"
  using timestamp_facts(1,2) [OF assms(1)] timestamp_facts(1,2) [OF assms(2)]
  by (simp_all add: includes_arrow_append)


subsection \<open>Separators in a serialised cue\<close>

lemma first_sep_skip:
  "LF \<notin> set a \<Longrightarrow> first_sep (a @ r) = map_option (\<lambda>(p, rest). (a @ p, rest)) (first_sep r)"
proof (induction a)
  case Nil
  then show ?case by (simp add: option.map_ident)
next
  case (Cons c a)
  then have "c \<noteq> LF" by auto
  then have "sep_rest (c # a @ r) = None" by (simp add: sep_rest_None_iff del: sep_rest.simps)
  with Cons show ?case
    by (simp add: option.map_comp comp_def split_def del: sep_rest.simps)
qed

lemma first_sep_LF_text:
  assumes "x \<noteq> []" "\<not> is_ws (hd x)"
  shows "first_sep (LF # x) = map_option (\<lambda>(p, rest). (LF # p, rest)) (first_sep x)"
proof -
  from assms obtain d r where x: "x = d # r" "\<not> is_ws d" by (cases x) auto
  then have "sep_rest (LF # d # r) = None" by (simp add: sep_rest_None_iff del: sep_rest.simps)
  then show ?thesis unfolding x by (simp del: sep_rest.simps)
qed

lemma takeWhile_ws_text:
  assumes "t \<noteq> []" "\<not> is_ws (last t)"
  shows "takeWhile is_ws (t @ x) = takeWhile is_ws t"
proof -
  from assms have "last t \<in> set t" by simp
  with assms(2) show ?thesis by (intro takeWhile_append1) auto
qed

lemma sep_rest_blank_line: "\<not> is_ws d \<Longrightarrow> sep_rest (LF # LF # d # r) = Some (d # r)"
  by (simp add: after_last_LF_def is_ws_def)

lemma first_sep_after_text:
  assumes "first_sep t = None" "t \<noteq> []" "\<not> is_ws (last t)" "\<not> is_ws d"
  shows "first_sep (t @ LF # LF # d # r) = Some (t, d # r)"
  using assms(1,2,3)
proof (induction t)
  case Nil
  then show ?case by simp
next
  case (Cons c t)
  show ?case
  proof (cases "t = []")
    case True
    with Cons.prems have "c \<noteq> LF" by (auto simp: is_ws_def)
    then have "sep_rest (c # LF # LF # d # r) = None"
      by (simp add: sep_rest_None_iff del: sep_rest.simps)
    moreover have "first_sep (LF # LF # d # r) = Some ([], d # r)"
      using sep_rest_blank_line [OF assms(4), of r] by (simp del: sep_rest.simps)
    ultimately show ?thesis using True by (simp del: sep_rest.simps)
  next
    case False
    with Cons.prems have t: "first_sep t = None" "\<not> is_ws (last t)" and
      c: "sep_rest (c # t) = None"
      by (simp_all add: first_sep_Cons_None del: first_sep.simps sep_rest.simps)
    from c have "sep_rest (c # t @ LF # LF # d # r) = None"
      unfolding sep_rest_None_iff takeWhile_ws_text [OF False t(2)] .
    with Cons.IH [OF t(1) False t(2)] show ?thesis by (simp del: sep_rest.simps)
  qed
qed

lemma first_sep_text_end:
  assumes "first_sep t = None" "t \<noteq> []" "\<not> is_ws (last t)"
  shows "first_sep (t @ [LF]) = None"
  using assms
proof (induction t)
  case Nil
  then show ?case by simp
next
  case (Cons c t)
  show ?case
  proof (cases "t = []")
    case True
    with Cons.prems have "c \<noteq> LF" by (auto simp: is_ws_def)
    with True show ?thesis by simp
  next
    case False
    with Cons.prems have t: "first_sep t = None" "\<not> is_ws (last t)" and
      c: "sep_rest (c # t) = None"
      by (simp_all add: first_sep_Cons_None del: first_sep.simps sep_rest.simps)
    from c have "sep_rest (c # t @ [LF]) = None"
      unfolding sep_rest_None_iff takeWhile_ws_text [OF False t(2)] .
    with Cons.IH [OF t(1) False t(2)] show ?thesis
      by (simp add: first_sep_Cons_None del: first_sep.simps sep_rest.simps)
  qed
qed

lemma srt_entry_cue:
  "srt_cue b \<Longrightarrow>
     srt_entry ONLY_TRANSLATION (i, b) = cue_header (i + 1) b @ originalText b @ [LF]"
  by (simp add: srt_entry_def cue_header_def translated_or_original_def srt_cue_def)

lemma show_nat_facts:
  "show_nat n \<noteq> []" "\<not> is_ws (hd (show_nat n))" "LF \<notin> set (show_nat n)"
  "CR \<notin> set (show_nat n)" "\<not> includes_arrow (show_nat n)"
proof -
  have d: "\<forall>c \<in> set (show_nat n). is_digit c" and ne: "show_nat n \<noteq> []"
    using show_nat_digits [of n] by simp_all
  show "show_nat n \<noteq> []" by (rule ne)
  from ne have "hd (show_nat n) \<in> set (show_nat n)" by simp
  with d show "\<not> is_ws (hd (show_nat n))" using digit_facts(1) by blast
  show "LF \<notin> set (show_nat n)" using d digit_facts(2) by blast
  show "CR \<notin> set (show_nat n)" using d digit_facts(3) by blast
  show "\<not> includes_arrow (show_nat n)" using d digit_facts(4) includes_arrow_dash by blast
qed

lemma cue_header_facts:
  "cue_header n b \<noteq> []" "\<not> is_ws (hd (cue_header n b))"
  using show_nat_facts(1,2) [of n] by (simp_all add: cue_header_def)

lemma cue_header_no_CR: "srt_cue b \<Longrightarrow> CR \<notin> set (cue_header n b)"
  using show_nat_facts(4) [of n] timestamp_facts(2)
  by (auto simp: cue_header_def srt_cue_def)

lemma first_sep_cue_header:
  assumes "srt_cue b" "x \<noteq> []" "\<not> is_ws (hd x)"
  shows "first_sep (cue_header n b @ x)
           = map_option (\<lambda>(p, rest). (cue_header n b @ p, rest)) (first_sep x)"
proof -
  let ?line = "startTime b @ '' --> '' @ endTime b"
  from assms(1) have ts: "is_timestamp (startTime b)" "is_timestamp (endTime b)"
    by (simp_all add: srt_cue_def)
  have line: "?line @ x \<noteq> []" "\<not> is_ws (hd (?line @ x))" for x
    using timestamp_facts(3,4) [OF ts(1)] by simp_all
  have 1: "first_sep (show_nat n @ LF # ?line @ LF # x)
             = map_option (\<lambda>(p, rest). (show_nat n @ p, rest))
                 (first_sep (LF # ?line @ LF # x))"
    by (rule first_sep_skip) (rule show_nat_facts)
  have 2: "first_sep (LF # ?line @ LF # x)
             = map_option (\<lambda>(p, rest). (LF # p, rest)) (first_sep (?line @ LF # x))"
    by (rule first_sep_LF_text) (rule line)+
  have 3: "first_sep (?line @ LF # x)
             = map_option (\<lambda>(p, rest). (?line @ p, rest)) (first_sep (LF # x))"
    by (rule first_sep_skip) (rule time_line_facts [OF ts])
  have 4: "first_sep (LF # x)
             = map_option (\<lambda>(p, rest). (LF # p, rest)) (first_sep x)"
    by (rule first_sep_LF_text) (rule assms)+
  have "first_sep (cue_header n b @ x) = first_sep (show_nat n @ LF # ?line @ LF # x)"
    by (simp add: cue_header_def)
  also have "\<dots> = map_option (\<lambda>(p, rest). (show_nat n @ LF # ?line @ LF # p, rest))
                     (first_sep x)"
    unfolding 1 2 3 4 by (simp add: option.map_comp comp_def split_def)
  also have "(\<lambda>(p, rest). (show_nat n @ LF # ?line @ LF # p, rest))
               = (\<lambda>(p, rest). (cue_header n b @ p, rest))"
    by (simp add: cue_header_def)
  finally show ?thesis .
qed


lemma text_ends:
  assumes "srt_cue b"
  shows "originalText b \<noteq> []" "\<not> is_ws (hd (originalText b))"
    "\<not> is_ws (last (originalText b))" "first_sep (originalText b) = None"
    "trim (originalText b) = originalText b"
proof -
  from assms show ne: "originalText b \<noteq> []" and t: "trim (originalText b) = originalText b"
    and "first_sep (originalText b) = None"
    by (simp_all add: srt_cue_def)
  from ne t trim_ends [of "originalText b"]
  show "\<not> is_ws (hd (originalText b))" "\<not> is_ws (last (originalText b))" by simp_all
qed

lemma first_sep_cue_then_blank:
  assumes "srt_cue b" "\<not> is_ws d"
  shows "first_sep (cue_header n b @ originalText b @ LF # LF # d # r)
           = Some (cue_header n b @ originalText b, d # r)"
proof -
  note t = text_ends [OF assms(1)]
  have "first_sep (cue_header n b @ (originalText b @ LF # LF # d # r))
          = map_option (\<lambda>(p, rest). (cue_header n b @ p, rest))
              (first_sep (originalText b @ LF # LF # d # r))"
    by (rule first_sep_cue_header) (use assms(1) t in simp_all)
  also have "first_sep (originalText b @ LF # LF # d # r) = Some (originalText b, d # r)"
    by (rule first_sep_after_text) (use t assms(2) in simp_all)
  finally show ?thesis by simp
qed

lemma first_sep_cue_at_end:
  assumes "srt_cue b"
  shows "first_sep (cue_header n b @ originalText b @ [LF]) = None"
proof -
  note t = text_ends [OF assms(1)]
  have "first_sep (cue_header n b @ (originalText b @ [LF]))
          = map_option (\<lambda>(p, rest). (cue_header n b @ p, rest))
              (first_sep (originalText b @ [LF]))"
    by (rule first_sep_cue_header) (use assms(1) t in simp_all)
  also have "first_sep (originalText b @ [LF]) = None"
    by (rule first_sep_text_end) (use t in simp_all)
  finally show ?thesis by simp
qed

lemma parse_block_cue:
  assumes "srt_cue b" "z = [] \<or> z = [LF]"
  shows "parse_block (cue_header n b @ originalText b @ z)
           = Some (startTime b, endTime b, originalText b)"
proof -
  note t = text_ends [OF assms(1)]
  let ?line = "startTime b @ '' --> '' @ endTime b"
  let ?p = "cue_header n b @ originalText b @ z"
  from assms(1) have ts: "is_timestamp (startTime b)" "is_timestamp (endTime b)"
    by (simp_all add: srt_cue_def)
  have "?p = show_nat n @ LF # (?line @ LF # (originalText b @ z))"
    by (simp add: cue_header_def)
  then have "split_LF ?p = show_nat n # split_LF (?line @ LF # (originalText b @ z))"
    by (simp only: split_LF_first_line [OF show_nat_facts(3)])
  then have lines: "split_LF ?p = show_nat n # ?line # split_LF (originalText b @ z)"
    by (simp only: split_LF_first_line [OF time_line_facts(1) [OF ts]])
  have 1: "trim ?p \<noteq> []"
    using cue_header_facts [of n b] by (rule trim_nonempty)
  have 2: "findIndex includes_arrow (split_LF ?p) = Some 1"
    unfolding lines using show_nat_facts(5) [of n] time_line_facts(3) [OF ts] by simp
  have 3: "time_match (split_LF ?p ! 1) = Some (startTime b, endTime b)"
    unfolding lines using time_match_line [OF ts] by simp
  have "join [LF] (drop (1 + 1) (split_LF ?p)) = originalText b @ z"
    unfolding lines by (simp add: join_split_LF)
  moreover have "trim (originalText b @ z) = originalText b"
    using assms(2) t(5) by (auto simp: trim_snoc_ws is_ws_def)
  ultimately have 4: "trim (join [LF] (drop (1 + 1) (split_LF ?p))) = originalText b" by simp
  have 5: "\<not> length (split_LF ?p) < 2" unfolding lines by simp
  show ?thesis
    unfolding parse_block_def Let_def using 1 5 t(1) by (simp only: 2 3 4 if_False option.case prod.case simp_thms if_True)
qed


subsection \<open>Parsing the serialised list again\<close>

lemma stringifySRT_srt_text: "stringifySRT bs ONLY_TRANSLATION = srt_text 0 bs"
  by (simp add: stringifySRT_def srt_text_def)

lemma srt_text_single:
  "srt_cue b \<Longrightarrow> srt_text j [b] = cue_header (j + 1) b @ originalText b @ [LF]"
  by (simp add: srt_text_def srt_entry_cue)

lemma srt_text_Cons:
  "srt_cue b \<Longrightarrow>
     srt_text j (b # c # cs)
       = cue_header (j + 1) b @ originalText b @ LF # LF # srt_text (j + 1) (c # cs)"
  by (simp add: srt_text_def srt_entry_cue)

lemma srt_text_starts:
  assumes "srt_cue c"
  shows "\<exists>d r. srt_text j (c # cs) = d # r \<and> \<not> is_ws d"
proof -
  obtain d h where h: "cue_header (j + 1) c = d # h" "\<not> is_ws d"
    using cue_header_facts [of "j + 1" c] by (cases "cue_header (j + 1) c") auto
  show ?thesis
  proof (cases cs)
    case Nil
    with h show ?thesis by (simp add: srt_text_single [OF assms])
  next
    case (Cons e es)
    with h show ?thesis by (simp add: srt_text_Cons [OF assms])
  qed
qed

lemma includes_CRLF_cue:
  assumes "srt_cue b" "\<not> includes_CRLF (originalText b)"
  shows "includes_CRLF (cue_header n b @ originalText b @ LF # x) = includes_CRLF x"
proof -
  note t = text_ends [OF assms(1)]
  have cr: "is_ws CR" by (simp add: is_ws_def)
  have H: "includes_CRLF (cue_header n b @ y) = includes_CRLF y" for y
  proof -
    have "CR \<notin> set (cue_header n b)" using assms(1) by (rule cue_header_no_CR)
    moreover have "last (cue_header n b) \<in> set (cue_header n b)"
      using cue_header_facts(1) by simp
    ultimately have "\<not> includes_CRLF (cue_header n b)" "last (cue_header n b) \<noteq> CR"
      using no_CR_no_CRLF by auto
    then show ?thesis by (simp add: includes_CRLF_append)
  qed
  have "last (originalText b) \<noteq> CR" using t(3) cr by auto
  with assms(2) have "includes_CRLF (originalText b @ LF # x) = includes_CRLF x"
    by (simp add: includes_CRLF_append includes_CRLF_Cons del: includes_CRLF.simps)
  with H show ?thesis by simp
qed

lemma srt_text_no_CRLF:
  "\<forall>b \<in> set bs. srt_cue b \<and> \<not> includes_CRLF (originalText b) \<Longrightarrow>
     \<not> includes_CRLF (srt_text j bs)"
proof (induction bs arbitrary: j)
  case Nil
  then show ?case by (simp add: srt_text_def)
next
  case (Cons b bs)
  then have b: "srt_cue b" "\<not> includes_CRLF (originalText b)" by simp_all
  show ?case
  proof (cases bs)
    case Nil
    then show ?thesis
      using includes_CRLF_cue [OF b, of "j + 1" "[]"] by (simp add: srt_text_single [OF b(1)])
  next
    case (Cons c cs)
    have "\<not> includes_CRLF (srt_text (j + 1) bs)" using Cons.IH Cons.prems by simp
    then have "\<not> includes_CRLF (LF # srt_text (j + 1) bs)"
      by (simp add: includes_CRLF_Cons del: includes_CRLF.simps)
    then show ?thesis
      unfolding Cons srt_text_Cons [OF b(1)]
      using includes_CRLF_cue [OF b, of "j + 1" "LF # srt_text (j + 1) (c # cs)"] Cons
      by simp
  qed
qed

lemma cue_block:
  "srt_cue b \<Longrightarrow>
     \<lparr>block_id = k, startTime = startTime b, endTime = endTime b,
      originalText = originalText b, translatedText = [], isTranslating = False\<rparr>
       = b\<lparr>block_id := k\<rparr>"
  by (cases b) (simp add: srt_cue_def)

lemma parse_srt_text:
  "\<forall>b \<in> set bs. srt_cue b \<Longrightarrow>
     parseSRT_loop k (split_blank (srt_text j bs)) = renumber k bs"
proof (induction bs arbitrary: j k)
  case Nil
  have "split_blank [] = [[]]" by (simp add: split_blank_None)
  moreover have "parse_block [] = None" by (simp add: parse_block_def)
  ultimately show ?case by (simp add: srt_text_def)
next
  case (Cons b bs)
  then have b: "srt_cue b" by simp
  show ?case
  proof (cases bs)
    case Nil
    have "split_blank (srt_text j [b]) = [cue_header (j + 1) b @ originalText b @ [LF]]"
      unfolding srt_text_single [OF b]
      by (rule split_blank_None) (rule first_sep_cue_at_end [OF b])
    moreover have "parse_block (cue_header (j + 1) b @ originalText b @ [LF])
        = Some (startTime b, endTime b, originalText b)"
      by (rule parse_block_cue [OF b]) simp
    ultimately show ?thesis using Nil by (simp add: cue_block [OF b])
  next
    case (Cons c cs)
    with Cons.prems have c: "srt_cue c" by simp
    obtain d r where d: "srt_text (j + 1) (c # cs) = d # r" "\<not> is_ws d"
      using srt_text_starts [OF c] by blast
    have "split_blank (srt_text j (b # c # cs))
        = (cue_header (j + 1) b @ originalText b) # split_blank (srt_text (j + 1) (c # cs))"
      unfolding srt_text_Cons [OF b] d(1)
      by (rule split_blank_Some) (rule first_sep_cue_then_blank [OF b d(2)])
    moreover have "parse_block (cue_header (j + 1) b @ originalText b)
        = Some (startTime b, endTime b, originalText b)"
      using parse_block_cue [OF b, of "[]" "j + 1"] by simp
    moreover have "parseSRT_loop (k + 1) (split_blank (srt_text (j + 1) bs)) = renumber (k + 1) bs"
      using Cons.IH Cons.prems by simp
    ultimately show ?thesis using Cons by (simp add: cue_block [OF b])
  qed
qed

lemma renumber_id:
  "\<forall>i < length bs. block_id (bs ! i) = k + i \<Longrightarrow> renumber k bs = bs"
proof (induction bs arbitrary: k)
  case Nil
  then show ?case by simp
next
  case (Cons b bs)
  then have "block_id b = k" by auto
  moreover have "\<forall>i < length bs. block_id (bs ! i) = (k + 1) + i"
    using Cons.prems by fastforce
  ultimately show ?case using Cons.IH by simp
qed

text \<open>
  C5, as the specification states it, fails. \<^verbatim>\<open>replace(/\r\n/g, '\n')\<close> is one pass, so
  CR CR LF in the input leaves CR LF in the text of a cue; the serialiser writes it out,
  and the second parse turns it into LF: the text does not come back.
\<close>

theorem parseSRT_round_trip_counterexample:
  "map originalText (parseSRT crcrlf_subtitle) = [''Hello'' @ [CR, LF] @ ''World'']
   \<and> map originalText (parseSRT (stringifySRT (parseSRT crcrlf_subtitle) ONLY_TRANSLATION))
       = [''Hello'' @ [LF] @ ''World'']"
  by code_simp

text \<open>
  C5, amended. For every input \<open>X\<close> such that no text returned by \<^const>\<open>parseSRT\<close> holds a
  carriage return directly before a line feed, parsing the translation-only
  serialisation of \<open>parseSRT X\<close> returns \<open>parseSRT X\<close> itself: the same texts, the same
  time stamps, and also the same ids, with no translation set.
\<close>

theorem parseSRT_round_trip:
  assumes "\<forall>b \<in> set (parseSRT X). \<not> includes_CRLF (originalText b)"
  shows "parseSRT (stringifySRT (parseSRT X) ONLY_TRANSLATION) = parseSRT X"
proof -
  let ?bs = "parseSRT X"
  have cues: "\<forall>b \<in> set ?bs. srt_cue b" using parseSRT_cues by blast
  with assms have "\<not> includes_CRLF (srt_text 0 ?bs)" by (intro srt_text_no_CRLF) simp
  then have "replace_CRLF (srt_text 0 ?bs) = srt_text 0 ?bs" by (rule replace_CRLF_id)
  then have "parseSRT (stringifySRT ?bs ONLY_TRANSLATION)
      = parseSRT_loop 1 (split_blank (srt_text 0 ?bs))"
    by (simp add: parseSRT_def stringifySRT_srt_text)
  also have "\<dots> = renumber 1 ?bs" using cues by (rule parse_srt_text)
  also have "\<dots> = ?bs"
    by (rule renumber_id) (simp add: parseSRT_def parseSRT_loop_ids)
  finally show ?thesis .
qed

theorem parseSRT_round_trip_witness:
  "parseSRT (stringifySRT (parseSRT two_cues) ONLY_TRANSLATION) = parseSRT two_cues
   \<and> map originalText (parseSRT two_cues) = [''Hello'', ''World'']
   \<and> map startTime (parseSRT two_cues) = [''00:00:01,000'', ''00:00:03,000'']"
proof -
  have p: "parseSRT two_cues
             = [\<lparr>block_id = 1, startTime = ''00:00:01,000'', endTime = ''00:00:02,000'',
                 originalText = ''Hello'', translatedText = [], isTranslating = False\<rparr>,
                \<lparr>block_id = 2, startTime = ''00:00:03,000'', endTime = ''00:00:04,000'',
                 originalText = ''World'', translatedText = [], isTranslating = False\<rparr>]"
    by code_simp
  have h: "\<forall>b \<in> set (parseSRT two_cues). \<not> includes_CRLF (originalText b)"
    unfolding p by simp
  from parseSRT_round_trip [OF h] show ?thesis by (simp add: p)
qed

section \<open>Properties of the serialisers\<close>

lemma lrc_entry_dual:
  "format \<noteq> ONLY_TRANSLATION \<Longrightarrow>
     lrc_entry format block = hd (dual_lines format block) @ LF # hd (tl (dual_lines format block))"
  by (cases format) (simp_all add: lrc_entry_def dual_lines_def timeTag_def)

lemma dual_lines_two:
  "\<exists>x y. dual_lines format block = [x, y]"
  by (cases format) (simp_all add: dual_lines_def)

lemma dual_lines_single:
  assumes "single_line (startTime block)" "single_line (originalText block)"
    "single_line (translatedText block)" "l \<in> set (dual_lines format block)"
  shows "LF \<notin> set l"
  using assms
  by (cases format)
     (auto simp: dual_lines_def timeTag_def single_line_def translated_or_original_def
           split: if_splits)

text \<open>
  C8, as the specification states it, fails: a text with an embedded line feed (a
  translation may have one) is written as it is, so the segment takes more than two lines
  and the continuation line carries no tag.
\<close>

theorem stringifyLRC_multiline_counterexample:
  "split_LF (stringifyLRC [lyric_line] DUAL_TRANS_SRC)
     = [''[00:12.19]Tra'', ''la'', ''[00:12.19]La la'']"
  by code_simp


lemma stringifyLRC_dual_split:
  assumes "format = DUAL_TRANS_SRC \<or> format = DUAL_SRC_TRANS"
    and "blocks \<noteq> []"
    and "\<forall>b \<in> set blocks. single_line (startTime b) \<and> single_line (originalText b)
                              \<and> single_line (translatedText b)"
  shows "split_LF (stringifyLRC blocks format) = concat (map (dual_lines format) blocks)"
  using assms(2,3)
proof (induction blocks rule: list_nonempty_induct)
  case (single b)
  obtain x y where xy: "dual_lines format b = [x, y]" using dual_lines_two by blast
  with single dual_lines_single [of b _ format] have "LF \<notin> set x" "LF \<notin> set y" by auto
  moreover have "lrc_entry format b = x @ LF # y"
    using assms(1) xy lrc_entry_dual [of format b] by auto
  ultimately show ?case
    by (simp add: stringifyLRC_def xy split_LF_first_line split_LF_single)
next
  case (cons b bs)
  obtain x y where xy: "dual_lines format b = [x, y]" using dual_lines_two by blast
  with cons.prems dual_lines_single [of b _ format] have "LF \<notin> set x" "LF \<notin> set y" by auto
  moreover have "lrc_entry format b = x @ LF # y"
    using assms(1) xy lrc_entry_dual [of format b] by auto
  moreover obtain c cs where bs: "bs = c # cs" using cons.hyps by (cases bs) auto
  moreover have "split_LF (stringifyLRC bs format) = concat (map (dual_lines format) bs)"
    using cons by simp
  ultimately show ?case
    by (simp add: stringifyLRC_def xy split_LF_first_line)
qed

text \<open>
  C8, amended. For a segment list whose time stamps and texts contain no line feed, the
  output of \<^const>\<open>stringifyLRC\<close> in a dual mode is made of exactly two lines per segment, in
  the order of the segments, each starting with the tag \<^verbatim>\<open>[startTime]\<close> of its segment:
  translation (or original, when there is none) and original, in the order of the mode.
  The output is these lines joined by line feeds; none of them holds a line feed, and
  splitting the output of a non-empty list at the line feeds gives them back.
\<close>

theorem stringifyLRC_dual_two_tagged_lines:
  assumes "format = DUAL_TRANS_SRC \<or> format = DUAL_SRC_TRANS"
    and "\<forall>b \<in> set blocks. single_line (startTime b) \<and> single_line (originalText b)
                              \<and> single_line (translatedText b)"
  shows "stringifyLRC blocks format = join [LF] (concat (map (dual_lines format) blocks))
       \<and> (\<forall>l \<in> set (concat (map (dual_lines format) blocks)). single_line l)
       \<and> (blocks \<noteq> [] \<longrightarrow>
            split_LF (stringifyLRC blocks format) = concat (map (dual_lines format) blocks))"
proof -
  have lines: "\<forall>l \<in> set (concat (map (dual_lines format) blocks)). single_line l"
  proof
    fix l
    assume "l \<in> set (concat (map (dual_lines format) blocks))"
    then obtain b where b: "b \<in> set blocks" "l \<in> set (dual_lines format b)" by auto
    with assms(2) have "single_line (startTime b)" "single_line (originalText b)"
      "single_line (translatedText b)" by simp_all
    from dual_lines_single [OF this b(2)] show "single_line l" by (simp add: single_line_def)
  qed
  show ?thesis
  proof (cases "blocks = []")
    case True
    with lines show ?thesis by (simp add: stringifyLRC_def)
  next
    case False
    from stringifyLRC_dual_split [OF assms(1) False assms(2)]
    have split: "split_LF (stringifyLRC blocks format) = concat (map (dual_lines format) blocks)" .
    have "join [LF] (split_LF (stringifyLRC blocks format)) = stringifyLRC blocks format"
      by (rule join_split_LF)
    then have "stringifyLRC blocks format = join [LF] (concat (map (dual_lines format) blocks))"
      unfolding split by (rule sym)
    with split lines show ?thesis by blast
  qed
qed

theorem stringifyLRC_dual_witness:
  "split_LF (stringifyLRC two_lyrics DUAL_SRC_TRANS)
     = [''[00:12.19]La la'', ''[00:12.19]Tra la'', ''[00:17.50]End'', ''[00:17.50]End'']"
proof -
  have 1: "DUAL_SRC_TRANS = DUAL_TRANS_SRC \<or> DUAL_SRC_TRANS = DUAL_SRC_TRANS" by simp
  have 2: "two_lyrics \<noteq> []" by (simp add: two_lyrics_def)
  have 3: "\<forall>b \<in> set two_lyrics. single_line (startTime b) \<and> single_line (originalText b)
                              \<and> single_line (translatedText b)"
    by (simp add: two_lyrics_def single_line_def)
  from stringifyLRC_dual_two_tagged_lines [OF 1 3] 2 show ?thesis
    by (simp add: two_lyrics_def dual_lines_def timeTag_def translated_or_original_def)
qed

section \<open>Properties of the batch translator\<close>

lemma waits_append [simp]: "waits (xs @ ys) = waits xs @ waits ys"
  by (induction xs rule: waits.induct) simp_all

lemma failures_append [simp]: "failures (xs @ ys) = failures xs @ failures ys"
  by (induction xs rule: failures.induct) simp_all

lemma retry_events_append [simp]: "retry_events (xs @ ys) = retry_events xs @ retry_events ys"
  by (induction xs rule: retry_events.induct) simp_all

lemma requests_append [simp]: "requests (xs @ ys) = requests xs @ requests ys"
  by (induction xs rule: requests.induct) simp_all




lemma loop_last:
  "translateBatch_loop parse w req 2 =
     (case attempt_once parse w req 2 of
        (e2, Inr r) \<Rightarrow> (e2, Inr r)
      | (e2, Inl x2) \<Rightarrow> (e2 @ [Warned 3 x2], Inl x2))"
  by (subst translateBatch_loop.simps) (simp add: maxRetries_def split: prod.splits sum.splits)

lemma loop_second:
  "translateBatch_loop parse w req 1 =
     (case attempt_once parse w req 1 of
        (e1, Inr r) \<Rightarrow> (e1, Inr r)
      | (e1, Inl x1) \<Rightarrow>
          (case translateBatch_loop parse w req 2 of
             (effs, r) \<Rightarrow> (e1 @ [Warned 2 x1, Waited 2000] @ effs, r)))"
proof -
  have two: "Suc (Suc 0) = 2" by simp
  show ?thesis
    by (subst translateBatch_loop.simps)
       (simp add: maxRetries_def two split: prod.splits sum.splits)
qed

lemma loop_first:
  "translateBatch_loop parse w req 0 =
     (case attempt_once parse w req 0 of
        (e0, Inr r) \<Rightarrow> (e0, Inr r)
      | (e0, Inl x0) \<Rightarrow>
          (case translateBatch_loop parse w req 1 of
             (effs, r) \<Rightarrow> (e0 @ [Warned 1 x0, Waited 1000] @ effs, r)))"
  by (subst translateBatch_loop.simps)
     (simp add: maxRetries_def split: prod.splits sum.splits)

lemma translateBatch_unrolled:
  "translateBatch parse w req =
     (case attempt_once parse w req 0 of
        (e0, Inr r) \<Rightarrow> (e0, Inr r)
      | (e0, Inl x0) \<Rightarrow>
          (case attempt_once parse w req 1 of
             (e1, Inr r) \<Rightarrow> (e0 @ [Warned 1 x0, Waited 1000] @ e1, Inr r)
           | (e1, Inl x1) \<Rightarrow>
               (case attempt_once parse w req 2 of
                  (e2, Inr r) \<Rightarrow>
                    (e0 @ [Warned 1 x0, Waited 1000] @ e1 @ [Warned 2 x1, Waited 2000] @ e2, Inr r)
                | (e2, Inl x2) \<Rightarrow>
                    (e0 @ [Warned 1 x0, Waited 1000] @ e1 @ [Warned 2 x1, Waited 2000] @ e2
                       @ [Warned 3 x2], Inl x2))))"
  unfolding translateBatch_def loop_first loop_second loop_last
  by (simp split: prod.splits sum.splits)





text \<open>
  C3, as the specification states it, fails: with the CUSTOM provider and no configuration
  the call does not fail at once. It goes three times through the loop and waits 1000 ms
  and 2000 ms before the error reaches the caller.
\<close>

theorem missing_config_counterexample:
  "translateBatch no_parse offline (request_of [''a''] CUSTOM None) =
     ([Warned 1 (Error ''Missing Custom Provider Configuration''), Waited 1000,
       Warned 2 (Error ''Missing Custom Provider Configuration''), Waited 2000,
       Warned 3 (Error ''Missing Custom Provider Configuration'')],
      Inl (Error ''Missing Custom Provider Configuration''))"
  by code_simp


text \<open>
  C3, amended. With the CUSTOM provider and a missing \<^verbatim>\<open>baseUrl\<close> or \<^verbatim>\<open>apiKey\<close> no request
  is sent, and every attempt fails with the error "Missing Custom Provider Configuration".
  The loop treats it as any other failed attempt: three attempts, a wait of 1000 ms and
  one of 2000 ms between them, and after the third the configuration error is thrown to
  the caller.
\<close>

theorem missing_config_is_retried:
  "provider req = CUSTOM \<Longrightarrow> missing_config (customConfig req) \<Longrightarrow>
   translateBatch parse w req =
     ([Warned 1 (Error ''Missing Custom Provider Configuration''), Waited 1000,
       Warned 2 (Error ''Missing Custom Provider Configuration''), Waited 2000,
       Warned 3 (Error ''Missing Custom Provider Configuration'')],
      Inl (Error ''Missing Custom Provider Configuration''))"
proof -
  assume "provider req = CUSTOM" "missing_config (customConfig req)"
  then have "attempt_once parse w req k =
      ([], Inl (Error ''Missing Custom Provider Configuration''))" for k
    by (simp add: attempt_once_def request_jsonText_def)
  then show ?thesis
    by (simp add: translateBatch_unrolled)
qed

theorem missing_config_is_retried_witness:
  "missing_config (Some \<lparr>baseUrl = ''https://api.openai.com/v1'', apiKey = [],
                          config_modelName = ''gpt-4o-mini''\<rparr>)
   \<and> waits (fst (translateBatch no_parse offline
        (request_of [''a''] CUSTOM (Some \<lparr>baseUrl = ''https://api.openai.com/v1'', apiKey = [],
                          config_modelName = ''gpt-4o-mini''\<rparr>)))) = [1000, 2000]"
proof -
  have p: "provider (request_of [''a''] CUSTOM (Some \<lparr>baseUrl = ''https://api.openai.com/v1'',
             apiKey = [], config_modelName = ''gpt-4o-mini''\<rparr>)) = CUSTOM"
    by (simp add: request_of_def)
  have m: "missing_config (customConfig (request_of [''a''] CUSTOM
             (Some \<lparr>baseUrl = ''https://api.openai.com/v1'', apiKey = [],
                    config_modelName = ''gpt-4o-mini''\<rparr>)))"
    by (simp add: request_of_def missing_config_def)
  from missing_config_is_retried [OF p m, of no_parse offline] show ?thesis
    by (simp add: missing_config_def)
qed

text \<open>
  C7. Suppose attempt \<open>k\<close> receives a response whose cleaned text parses to an object with
  an array \<open>ts\<close> under \<^verbatim>\<open>translations\<close>. If one text was sent and \<open>ts\<close> has more than one
  element, the call returns at this attempt, with the single entry \<open>ts\<close> joined by line
  feeds. If more than one text was sent and the length of \<open>ts\<close> differs from their number,
  the attempt fails with the length-mismatch error, which the loop retries after the
  backoff wait, or throws when the attempt was the third.
\<close>

theorem oversplit_merged_mismatch_retried:
  assumes "request_jsonText w req k = (effs, Inr jsonText)"
    and "parse (trim (strip_fences jsonText)) = Some (JObject members)"
    and "map_of members ''translations'' = Some (JArray ts)"
    and "k < maxRetries"
  shows "(length (texts req) = 1 \<and> length ts > 1 \<longrightarrow>
            translateBatch_loop parse w req k
              = (effs @ [MergeWarned (length ts)], Inr [join [LF] ts]))
       \<and> (length (texts req) > 1 \<and> length ts \<noteq> length (texts req) \<longrightarrow>
            attempt_once parse w req k
              = (effs, Inl (Error (''Length mismatch: Expected '' @ show_nat (length (texts req))
                                   @ '', got '' @ show_nat (length ts))))
            \<and> translateBatch_loop parse w req k
              = (if k + 1 = maxRetries then
                   (effs @ [Warned (k + 1)
                       (Error (''Length mismatch: Expected '' @ show_nat (length (texts req))
                               @ '', got '' @ show_nat (length ts)))],
                    Inl (Error (''Length mismatch: Expected '' @ show_nat (length (texts req))
                                @ '', got '' @ show_nat (length ts))))
                 else
                   (effs @ [Warned (k + 1)
                       (Error (''Length mismatch: Expected '' @ show_nat (length (texts req))
                               @ '', got '' @ show_nat (length ts))),
                      Waited (1000 * 2 ^ k)] @ fst (translateBatch_loop parse w req (k + 1)),
                    snd (translateBatch_loop parse w req (k + 1)))))"
proof (intro conjI impI)
  assume "length (texts req) = 1 \<and> length ts > 1"
  with assms have "attempt_once parse w req k
      = (effs @ [MergeWarned (length ts)], Inr [join [LF] ts])"
    by (simp add: attempt_once_def validate_def)
  with assms(4) show "translateBatch_loop parse w req k
      = (effs @ [MergeWarned (length ts)], Inr [join [LF] ts])"
    by (subst translateBatch_loop.simps) simp
next
  assume a: "length (texts req) > 1 \<and> length ts \<noteq> length (texts req)"
  with assms show b: "attempt_once parse w req k
      = (effs, Inl (Error (''Length mismatch: Expected '' @ show_nat (length (texts req))
                           @ '', got '' @ show_nat (length ts))))"
    by (simp add: attempt_once_def validate_def)
  with assms(4) show "translateBatch_loop parse w req k
              = (if k + 1 = maxRetries then
                   (effs @ [Warned (k + 1)
                       (Error (''Length mismatch: Expected '' @ show_nat (length (texts req))
                               @ '', got '' @ show_nat (length ts)))],
                    Inl (Error (''Length mismatch: Expected '' @ show_nat (length (texts req))
                                @ '', got '' @ show_nat (length ts))))
                 else
                   (effs @ [Warned (k + 1)
                       (Error (''Length mismatch: Expected '' @ show_nat (length (texts req))
                               @ '', got '' @ show_nat (length ts))),
                      Waited (1000 * 2 ^ k)] @ fst (translateBatch_loop parse w req (k + 1)),
                    snd (translateBatch_loop parse w req (k + 1))))"
    by (subst translateBatch_loop.simps) (simp split: prod.splits)
qed

theorem oversplit_merged_witness:
  "translateBatch parse_ab (answers ''{}'') (request_of [''x''] GEMINI None)
     = ([Sent 0, MergeWarned 2], Inr [''a'' @ [LF] @ ''b''])"
proof -
  have 1: "request_jsonText (answers ''{}'') (request_of [''x''] GEMINI None) 0
             = ([Sent 0], Inr ''{}'')"
    by (simp add: request_jsonText_def answers_def request_of_def)
  have 2: "parse_ab (trim (strip_fences ''{}''))
             = Some (JObject [(''translations'', JArray [''a'', ''b''])])"
    by (simp add: parse_ab_def)
  have 3: "map_of [(''translations'', JArray [''a'', ''b''])] ''translations''
             = Some (JArray [''a'', ''b''])"
    by simp
  have 4: "0 < maxRetries" by (simp add: maxRetries_def)
  from oversplit_merged_mismatch_retried
         [where parse = parse_ab and w = "answers ''{}''" and k = 0
            and req = "request_of [''x''] GEMINI None" and jsonText = "''{}''"
            and effs = "[Sent 0]" and ts = "[''a'', ''b'']"
            and members = "[(''translations'', JArray [''a'', ''b''])]", OF 1 2 3 4]
  show ?thesis
    by (simp add: translateBatch_def request_of_def)
qed

section \<open>Properties of the driver\<close>

lemma length_mark_translating [simp]: "length (mark_translating a b xs) = length xs"
  by (simp add: mark_translating_def)

lemma nth_mark_translating:
  "idx < length xs \<Longrightarrow> mark_translating a b xs ! idx
     = (if a \<le> idx \<and> idx < b then (xs ! idx)\<lparr>isTranslating := True\<rparr> else xs ! idx)"
  by (simp add: mark_translating_def nth_enumerate_eq)

lemma length_store_translations [simp]: "length (store_translations a b ts xs) = length xs"
  by (simp add: store_translations_def)

lemma nth_store_translations:
  "idx < length xs \<Longrightarrow> store_translations a b ts xs ! idx
     = (if a \<le> idx \<and> idx < b then
          (xs ! idx)\<lparr>translatedText := text_or ts (idx - a) (originalText (xs ! idx)),
                     isTranslating := False\<rparr>
        else xs ! idx)"
  by (simp add: store_translations_def nth_enumerate_eq)

lemma length_clear_translating [simp]: "length (clear_translating xs) = length xs"
  by (simp add: clear_translating_def)

lemma nth_clear_translating:
  "idx < length xs \<Longrightarrow> clear_translating xs ! idx = (xs ! idx)\<lparr>isTranslating := False\<rparr>"
  by (simp add: clear_translating_def)

lemma loop_done:
  "\<not> i < totalBatches blocks \<Longrightarrow>
     startTranslation_loop parse ws cfg blocks i st = st\<lparr>isProcessing := False\<rparr>"
  by (subst startTranslation_loop.simps) simp

lemma loop_failed:
  "i < totalBatches blocks \<Longrightarrow> snd (chunk_call parse ws cfg blocks i) = Inl e \<Longrightarrow>
     startTranslation_loop parse ws cfg blocks i st
       = st\<lparr>current := clear_translating
                 (mark_translating (i * BATCH_SIZE) (min (i * BATCH_SIZE + BATCH_SIZE) (length blocks))
                    (current st)),
             isProcessing := False,
             calls := calls st @ [chunk_call parse ws cfg blocks i],
             caught := Some e\<rparr>"
  by (subst startTranslation_loop.simps) (simp add: chunk_call_def Let_def)

lemma loop_succeeded:
  "i < totalBatches blocks \<Longrightarrow> snd (chunk_call parse ws cfg blocks i) = Inr ts \<Longrightarrow>
     startTranslation_loop parse ws cfg blocks i st
       = startTranslation_loop parse ws cfg blocks (i + 1)
           (st\<lparr>current := store_translations (i * BATCH_SIZE)
                   (min (i * BATCH_SIZE + BATCH_SIZE) (length blocks)) ts
                   (mark_translating (i * BATCH_SIZE)
                      (min (i * BATCH_SIZE + BATCH_SIZE) (length blocks)) (current st)),
               calls := calls st @ [chunk_call parse ws cfg blocks i]\<rparr>)"
  by (subst startTranslation_loop.simps) (simp add: chunk_call_def Let_def)


lemma chunk_div_mod:
  fixes i idx :: nat
  assumes "i * 10 \<le> idx" "idx < i * 10 + 10"
  shows "idx div 10 = i" and "idx - i * 10 = idx mod 10"
proof -
  show d: "idx div 10 = i"
    by (rule div_nat_eqI) (use assms in \<open>simp_all add: mult.commute\<close>)
  show "idx - i * 10 = idx mod 10"
    using d by (simp add: modulo_nat_def mult.commute)
qed

lemma loop_run_shape:
  "length (current st) = length blocks \<Longrightarrow> caught st = None \<Longrightarrow> i \<le> totalBatches blocks \<Longrightarrow>
     \<exists>m. run_shape parse ws cfg blocks i st (startTranslation_loop parse ws cfg blocks i st) m"
proof (induction "totalBatches blocks - i" arbitrary: i st)
  case 0
  then have i: "i = totalBatches blocks" by simp
  then have r: "startTranslation_loop parse ws cfg blocks i st = st\<lparr>isProcessing := False\<rparr>"
    by (simp add: loop_done)
  have "\<not> (i * 10 \<le> idx \<and> idx div 10 < i)" for idx
    by (simp add: div_less_iff_less_mult)
  with 0 i show ?case
    unfolding r run_shape_def by (intro exI [of _ i]) auto
next
  case (Suc d)
  then have lt: "i < totalBatches blocks" by simp
  let ?a = "i * BATCH_SIZE"
  let ?b = "min (i * BATCH_SIZE + BATCH_SIZE) (length blocks)"
  let ?C = "chunk_call parse ws cfg blocks"
  show ?case
  proof (cases "snd (?C i)")
    case (Inl e)
    note r = loop_failed [OF lt Inl, of st]
    have idx: "\<not> (i * 10 \<le> idx \<and> idx div 10 < Suc i \<and> \<not> isl (snd (?C (idx div 10))))" for idx
    proof
      assume a: "i * 10 \<le> idx \<and> idx div 10 < Suc i \<and> \<not> isl (snd (?C (idx div 10)))"
      then have "idx div 10 = i"
        by (intro chunk_div_mod(1)) (simp_all add: div_less_iff_less_mult)
      with a Inl show False by simp
    qed
    let ?r = "startTranslation_loop parse ws cfg blocks i st"
    have texts: "originalText (current ?r ! idx) = originalText (current st ! idx)
        \<and> translatedText (current ?r ! idx)
          = (if i * 10 \<le> idx \<and> idx div 10 < Suc i \<and> \<not> isl (snd (?C (idx div 10)))
             then text_or (projr (snd (?C (idx div 10)))) (idx mod 10)
                    (originalText (current st ! idx))
             else translatedText (current st ! idx))" if "idx < length blocks" for idx
      using that idx [of idx] Suc.prems
      by (auto simp add: r nth_clear_translating nth_mark_translating)
    have flags: "\<forall>b \<in> set (current ?r). \<not> isTranslating b"
      by (simp add: r clear_translating_def)
    have rest: "calls ?r = calls st @ map ?C [i..<Suc i]" "caught ?r = Some e"
      "length (current ?r) = length blocks" "\<not> isProcessing ?r"
      using Suc.prems by (simp_all add: r)
    have "run_shape parse ws cfg blocks i st ?r (Suc i)"
      unfolding run_shape_def using lt Inl texts flags rest by auto
    then show ?thesis by blast
  next
    case (Inr ts)
    define st' where "st' = st\<lparr>current := store_translations ?a ?b ts (mark_translating ?a ?b (current st)),
                  calls := calls st @ [?C i]\<rparr>"
    define r where "r = startTranslation_loop parse ws cfg blocks (i + 1) st'"
    have r: "startTranslation_loop parse ws cfg blocks i st = r"
      unfolding r_def st'_def by (rule loop_succeeded [OF lt Inr])
    have st': "length (current st') = length blocks" "caught st' = None"
      "calls st' = calls st @ [?C i]"
      "current st' = store_translations ?a ?b ts (mark_translating ?a ?b (current st))"
      using Suc.prems by (simp_all add: st'_def)
    have "d = totalBatches blocks - (i + 1)" using Suc.hyps(2) by simp
    moreover have "i + 1 \<le> totalBatches blocks" using lt by simp
    ultimately obtain m where m: "run_shape parse ws cfg blocks (i + 1) st' r m"
      unfolding r_def using Suc.hyps(1) st'(1,2) by blast
    have im: "i < m" "m \<le> totalBatches blocks" using m by (simp_all add: run_shape_def)
    have "calls r = calls st' @ map ?C [i + 1..<m]" using m by (simp add: run_shape_def)
    then have calls: "calls r = calls st @ map ?C [i..<m]"
      using im st'(3) by (simp add: upt_conv_Cons)
    have caught: "case caught r of
        None \<Rightarrow> m = totalBatches blocks \<and> (\<forall>j. i \<le> j \<and> j < m \<longrightarrow> \<not> isl (snd (?C j)))
      | Some e \<Rightarrow> i < m \<and> snd (?C (m - 1)) = Inl e
                 \<and> (\<forall>j. i \<le> j \<and> j < m - 1 \<longrightarrow> \<not> isl (snd (?C j)))
                 \<and> (\<forall>b \<in> set (current r). \<not> isTranslating b)"
    proof (cases "caught r")
      case None
      with m have *: "m = totalBatches blocks" "\<forall>j. Suc i \<le> j \<and> j < m \<longrightarrow> \<not> isl (snd (?C j))"
        by (simp_all add: run_shape_def)
      have "\<not> isl (snd (?C j))" if "i \<le> j" "j < m" for j
        using that Inr *(2) by (cases "j = i") auto
      with None * show ?thesis by simp
    next
      case (Some e)
      with m have s: "snd (?C (m - 1)) = Inl e"
        "\<forall>j. Suc i \<le> j \<and> j < m - 1 \<longrightarrow> \<not> isl (snd (?C j))"
        "\<forall>b \<in> set (current r). \<not> isTranslating b"
        by (simp_all add: run_shape_def)
      have "\<not> isl (snd (?C j))" if "i \<le> j" "j < m - 1" for j
        using that Inr s(2) by (cases "j = i") auto
      with Some s im show ?thesis by simp
    qed
    have texts: "originalText (current r ! idx) = originalText (current st ! idx)
        \<and> translatedText (current r ! idx)
          = (if i * 10 \<le> idx \<and> idx div 10 < m \<and> \<not> isl (snd (?C (idx div 10)))
             then text_or (projr (snd (?C (idx div 10)))) (idx mod 10)
                    (originalText (current st ! idx))
             else translatedText (current st ! idx))" if idx: "idx < length blocks" for idx
    proof -
      from m idx have ro: "originalText (current r ! idx) = originalText (current st' ! idx)"
        and rt: "translatedText (current r ! idx)
          = (if (i + 1) * 10 \<le> idx \<and> idx div 10 < m \<and> \<not> isl (snd (?C (idx div 10)))
             then text_or (projr (snd (?C (idx div 10)))) (idx mod 10)
                    (originalText (current st' ! idx))
             else translatedText (current st' ! idx))"
        by (simp_all add: run_shape_def)
      have len: "idx < length (current st)" using idx Suc.prems by simp
      have orig: "originalText (current st' ! idx) = originalText (current st ! idx)"
        using len by (simp add: st'(4) nth_store_translations nth_mark_translating)
      have t: "translatedText (current st' ! idx)
          = (if i * 10 \<le> idx \<and> idx < i * 10 + 10
             then text_or ts (idx - i * 10) (originalText (current st ! idx))
             else translatedText (current st ! idx))"
        using len idx
        by (simp add: st'(4) nth_store_translations nth_mark_translating BATCH_SIZE_def)
      consider (before) "idx < i * 10" | (inside) "i * 10 \<le> idx" "idx < i * 10 + 10"
        | (after) "i * 10 + 10 \<le> idx"
        by linarith
      then have "translatedText (current r ! idx)
          = (if i * 10 \<le> idx \<and> idx div 10 < m \<and> \<not> isl (snd (?C (idx div 10)))
             then text_or (projr (snd (?C (idx div 10)))) (idx mod 10)
                    (originalText (current st ! idx))
             else translatedText (current st ! idx))"
      proof cases
        case before
        then have "\<not> (i + 1) * 10 \<le> idx" "\<not> i * 10 \<le> idx" by simp_all
        then show ?thesis unfolding rt t by (simp only: simp_thms if_False)
      next
        case inside
        then have d: "idx div 10 = i" and e: "idx - i * 10 = idx mod 10"
          by (rule chunk_div_mod)+
        from inside have n: "\<not> (i + 1) * 10 \<le> idx" by simp
        have "translatedText (current r ! idx)
                = text_or ts (idx mod 10) (originalText (current st ! idx))"
          unfolding rt t e using n inside by (simp only: simp_thms if_False if_True)
        moreover have "\<not> isl (snd (?C (idx div 10)))" "projr (snd (?C (idx div 10))) = ts"
          "idx div 10 < m"
          unfolding d using Inr im by simp_all
        ultimately show ?thesis using inside by (simp only: simp_thms if_True)
      next
        case after
        then have "(i + 1) * 10 \<le> idx" "i * 10 \<le> idx" "\<not> idx < i * 10 + 10" by simp_all
        then show ?thesis unfolding rt t orig by (simp only: simp_thms if_False if_True)
      qed
      with ro orig show ?thesis by (simp only: simp_thms)
    qed
    have rest: "length (current r) = length blocks" "\<not> isProcessing r"
      using m by (simp_all add: run_shape_def)
    have "i \<le> m" using im by simp
    with im(2) calls caught rest texts have "run_shape parse ws cfg blocks i st r m"
      unfolding run_shape_def by blast
    then show ?thesis unfolding r by blast
  qed
qed


lemma run_shape_start:
  assumes "blocks \<noteq> []"
  shows "\<exists>m. run_shape parse ws cfg blocks 0
           \<lparr>current = blocks, isProcessing = True, calls = [], caught = None\<rparr>
           (startTranslation parse ws cfg blocks) m"
  using assms
    loop_run_shape [of "\<lparr>current = blocks, isProcessing = True, calls = [], caught = None\<rparr>"
      blocks 0 parse ws cfg]
  by (simp add: startTranslation_def)

lemma validate_length:
  "validate parse txts jsonText = (effs, Inr ts) \<Longrightarrow> length ts = length txts"
  by (auto simp: validate_def Let_def split: option.splits json.splits if_splits)

lemma attempt_once_length:
  "attempt_once parse w req k = (effs, Inr ts) \<Longrightarrow> length ts = length (texts req)"
  by (auto simp: attempt_once_def split: prod.splits sum.splits dest: validate_length)

lemma translateBatch_length:
  assumes "snd (translateBatch parse w req) = Inr ts"
  shows "length ts = length (texts req)"
proof -
  obtain e0 r0 where a0: "attempt_once parse w req 0 = (e0, r0)" by (cases "attempt_once parse w req 0")
  obtain e1 r1 where a1: "attempt_once parse w req 1 = (e1, r1)" by (cases "attempt_once parse w req 1")
  obtain e2 r2 where a2: "attempt_once parse w req 2 = (e2, r2)" by (cases "attempt_once parse w req 2")
  from assms a0 a1 a2 have "r0 = Inr ts \<or> r1 = Inr ts \<or> r2 = Inr ts"
    by (auto simp: translateBatch_unrolled split: sum.splits)
  with a0 a1 a2 attempt_once_length show ?thesis by blast
qed

lemma length_chunk_texts:
  "length (texts (chunk_request cfg blocks j)) = min (j * 10 + 10) (length blocks) - j * 10"
  by (simp add: chunk_request_def BATCH_SIZE_def Let_def)

text \<open>
  Every call of a run is the call of its chunk, built from the list the run started
  with; the context of a chunk after the first is read from that list.
\<close>

lemma calls_are_chunk_calls:
  "calls (startTranslation parse ws cfg blocks)
     = map (chunk_call parse ws cfg blocks)
         [0..<length (calls (startTranslation parse ws cfg blocks))]"
proof (cases "blocks = []")
  case True
  then show ?thesis by (simp add: startTranslation_def)
next
  case False
  from run_shape_start [OF False] obtain m where
    "run_shape parse ws cfg blocks 0
       \<lparr>current = blocks, isProcessing = True, calls = [], caught = None\<rparr>
       (startTranslation parse ws cfg blocks) m" by blast
  then have "calls (startTranslation parse ws cfg blocks)
      = map (chunk_call parse ws cfg blocks) [0..<m]"
    by (simp add: run_shape_def)
  then show ?thesis by (metis length_map length_upt minus_nat.diff_0)
qed

lemma context_of_chunk:
  "req_context (fst (chunk_call parse ws cfg blocks i))
     = (if i > 0 then Some (''Previous sentence: '' @ translatedText (blocks ! (i * 10 - 1)))
        else None)"
  by (simp add: chunk_call_def chunk_request_def BATCH_SIZE_def Let_def)

text \<open>
  C1. The code does not do what the claim says. The context of chunk \<open>i > 0\<close> is read from
  \<^verbatim>\<open>blocks[startIdx - 1]\<close>, where \<^verbatim>\<open>blocks\<close> is the list the handler closed over when the run
  started; the translations of the run go to the state of the component and never to
  that list. For twelve untranslated segments and a provider that answers \<open>T0\<close> to \<open>T11\<close>,
  two chunks are dispatched, the first without context, and the context of the second is
  "Previous sentence: " followed by nothing, although segment 9 holds \<open>T9\<close> by then.
\<close>

theorem stale_context_twelve_segments:
  "map (req_context \<circ> fst)
     (calls (startTranslation parse_numbered answers_chunk_number settings0 twelve_segments))
     = [None, Some ''Previous sentence: '']
   \<and> map translatedText
       (current (startTranslation parse_numbered answers_chunk_number settings0 twelve_segments))
     = [''T0'', ''T1'', ''T2'', ''T3'', ''T4'', ''T5'', ''T6'', ''T7'', ''T8'', ''T9'', ''T10'', ''T11'']"
  by code_simp





text \<open>No parser returns a segment with an empty text.\<close>

lemma parseLRC_loop_original_nonempty:
  "b \<in> set (parseLRC_loop n ls) \<Longrightarrow> originalText b \<noteq> []"
  by (induction ls arbitrary: n) (auto simp: Let_def split: option.splits if_splits)

lemma parse_as_original_nonempty:
  "b \<in> set (parse_as contentType rawText) \<Longrightarrow> originalText b \<noteq> []"
proof (cases "contentType = SUBTITLE_SRT")
  case True
  assume "b \<in> set (parse_as contentType rawText)"
  with True have "srt_cue b" by (simp add: parse_as_def parseSRT_cues)
  then show ?thesis by (simp add: srt_cue_def)
next
  case False
  assume "b \<in> set (parse_as contentType rawText)"
  with False show ?thesis
    by (auto simp: parse_as_def parseLRC_def parsePlainText_def
             dest: parseLRC_loop_original_nonempty split: if_splits)
qed

text \<open>
  C10. When the call of chunk \<open>j\<close> returns the list \<open>ts\<close>, every segment \<open>idx\<close> of that chunk
  has an entry in \<open>ts\<close>, and after the run its \<^verbatim>\<open>translatedText\<close> is that entry when the
  entry is not empty and its \<^verbatim>\<open>originalText\<close> otherwise. So the \<^verbatim>\<open>translatedText\<close> of a
  segment with a non-empty \<^verbatim>\<open>originalText\<close> (as every parser produces) is not empty, even
  when the provider returned the empty string for it.
\<close>

theorem successful_chunk_stores_translation_or_original:
  assumes "j < length (calls (startTranslation parse ws cfg blocks))"
    and "snd (calls (startTranslation parse ws cfg blocks) ! j) = Inr ts"
    and "j * 10 \<le> idx" and "idx < j * 10 + 10" and "idx < length blocks"
  shows "idx - j * 10 < length ts
       \<and> translatedText (current (startTranslation parse ws cfg blocks) ! idx)
           = (if ts ! (idx - j * 10) \<noteq> [] then ts ! (idx - j * 10) else originalText (blocks ! idx))
       \<and> (originalText (blocks ! idx) \<noteq> [] \<longrightarrow>
            translatedText (current (startTranslation parse ws cfg blocks) ! idx) \<noteq> [])"
proof -
  let ?r = "startTranslation parse ws cfg blocks"
  let ?C = "chunk_call parse ws cfg blocks"
  from assms(5) have "blocks \<noteq> []" by auto
  from run_shape_start [OF this] obtain m where
    m: "run_shape parse ws cfg blocks 0
          \<lparr>current = blocks, isProcessing = True, calls = [], caught = None\<rparr> ?r m" by blast
  then have calls: "calls ?r = map ?C [0..<m]" by (simp add: run_shape_def)
  with assms(1) have jm: "j < m" by simp
  with calls have cj: "calls ?r ! j = ?C j" by simp
  with assms(2) have out: "snd (?C j) = Inr ts" by simp
  have d: "idx div 10 = j" and e: "idx - j * 10 = idx mod 10"
    using assms(3,4) by (rule chunk_div_mod)+
  from m assms(5) have "translatedText (current ?r ! idx)
      = (if 0 * 10 \<le> idx \<and> idx div 10 < m \<and> \<not> isl (snd (?C (idx div 10)))
         then text_or (projr (snd (?C (idx div 10)))) (idx mod 10) (originalText (blocks ! idx))
         else translatedText (blocks ! idx))"
    by (simp add: run_shape_def)
  then have t: "translatedText (current ?r ! idx)
      = text_or ts (idx - j * 10) (originalText (blocks ! idx))"
    unfolding d e using jm out by simp
  from out have "length ts = length (texts (chunk_request cfg blocks j))"
    by (intro translateBatch_length [of parse "ws j"]) (simp add: chunk_call_def)
  with assms(3,4,5) have len: "idx - j * 10 < length ts"
    by (simp add: length_chunk_texts)
  with t show ?thesis by (simp add: text_or_def)
qed

theorem successful_chunk_witness:
  "snd (calls (startTranslation parse_empty_translation answers_chunk_number settings0
                 (parsePlainText ''Hi'')) ! 0) = Inr [[]]
   \<and> translatedText (current (startTranslation parse_empty_translation answers_chunk_number
                                settings0 (parsePlainText ''Hi'')) ! 0) = ''Hi''"
proof -
  let ?b = "parsePlainText ''Hi''"
  let ?r = "startTranslation parse_empty_translation answers_chunk_number settings0 ?b"
  have b: "?b = [segment 1 ''Hi'' []]" by code_simp
  have 1: "0 < length (calls ?r)" by code_simp
  have 2: "snd (calls ?r ! 0) = Inr [[]]" by code_simp
  have 3: "(0::nat) * 10 \<le> 0" "(0::nat) < 0 * 10 + 10" by simp_all
  have 4: "0 < length ?b" by (simp add: b)
  from successful_chunk_stores_translation_or_original [OF 1 2 3 4] 2 show ?thesis
    by (simp add: b segment_def)
qed

section \<open>Properties of the reparse effect\<close>

lemma parseSRT_loop_untranslated:
  "b \<in> set (parseSRT_loop n ps) \<Longrightarrow> translatedText b = []"
  by (induction ps arbitrary: n) (auto split: option.splits)

lemma parseLRC_loop_untranslated:
  "b \<in> set (parseLRC_loop n ls) \<Longrightarrow> translatedText b = []"
  by (induction ls arbitrary: n) (auto simp: Let_def split: option.splits if_splits)

lemma parse_as_untranslated:
  "b \<in> set (parse_as contentType rawText) \<Longrightarrow> translatedText b = []"
  by (auto simp: parse_as_def parseSRT_def parseLRC_def parsePlainText_def
           dest: parseSRT_loop_untranslated parseLRC_loop_untranslated split: if_splits)

lemma parse_as_empty: "parse_as contentType [] = []"
proof -
  have "parseSRT [] = []" "parseLRC [] = []" "parsePlainText [] = []" by code_simp+
  then show ?thesis by (simp add: parse_as_def)
qed

text \<open>
  C9. In every state of the component in which an empty raw text goes with an empty
  segment list (every handler that sets the raw text also sets the list to its parse),
  the effect carries the translations over exactly when the new parse has as many
  segments as the old list: then segment \<open>i\<close> is the newly parsed segment with the old
  \<^verbatim>\<open>translatedText\<close> of position \<open>i\<close>; otherwise the result is the new parse, and every
  \<^verbatim>\<open>translatedText\<close> is empty.
\<close>

theorem reparse_carries_translations_iff_same_length:
  assumes "rawText = [] \<longrightarrow> blocks = []"
  shows "(length (parse_as contentType rawText) = length blocks \<longrightarrow>
            length (reparse rawText contentType blocks) = length blocks
            \<and> (\<forall>i < length blocks.
                  reparse rawText contentType blocks ! i
                    = (parse_as contentType rawText ! i)\<lparr>translatedText := translatedText (blocks ! i)\<rparr>))
       \<and> (length (parse_as contentType rawText) \<noteq> length blocks \<longrightarrow>
            reparse rawText contentType blocks = parse_as contentType rawText
            \<and> (\<forall>b \<in> set (reparse rawText contentType blocks). translatedText b = []))"
proof (cases "rawText = []")
  case True
  with assms have "blocks = []" by simp
  with True show ?thesis by (simp add: reparse_def parse_as_empty)
next
  case False
  then show ?thesis
    by (auto simp: reparse_def Let_def nth_enumerate_eq dest: parse_as_untranslated)
qed

theorem reparse_witness:
  "length (reparse three_paragraphs PLAIN_TEXT three_translated) = 3
   \<and> reparse three_paragraphs PLAIN_TEXT three_translated ! 0 = segment 1 ''x'' ''A''
   \<and> reparse three_paragraphs PLAIN_TEXT three_translated ! 2 = segment 3 ''z'' ''C''"
proof -
  let ?r = "reparse three_paragraphs PLAIN_TEXT three_translated"
  have h: "three_paragraphs = [] \<longrightarrow> three_translated = []"
    by (simp add: three_paragraphs_def)
  have p: "parse_as PLAIN_TEXT three_paragraphs
             = [segment 1 ''x'' [], segment 2 ''y'' [], segment 3 ''z'' []]"
    by code_simp
  have l: "length three_translated = 3" by (simp add: three_translated_def)
  from reparse_carries_translations_iff_same_length [OF h, of PLAIN_TEXT]
  have len: "length ?r = 3" and "\<forall>i < 3. ?r ! i
          = (parse_as PLAIN_TEXT three_paragraphs ! i)
              \<lparr>translatedText := translatedText (three_translated ! i)\<rparr>"
    unfolding p l by simp_all
  then have nth: "?r ! i = (parse_as PLAIN_TEXT three_paragraphs ! i)
              \<lparr>translatedText := translatedText (three_translated ! i)\<rparr>" if "i < 3" for i
    using that by blast
  have "?r ! 0 = segment 1 ''x'' ''A''"
    by (subst nth) (simp_all add: p three_translated_def segment_def)
  moreover have "?r ! 2 = segment 3 ''z'' ''C''"
    by (subst nth) (simp_all add: p three_translated_def segment_def)
  ultimately show ?thesis using len by blast
qed

end
